theory Spec2Isabelle
  imports Complex_Main "HOL-Library.Word"
begin

unbundle bit_operations_syntax

section \<open>Errors\<close>

text \<open>
  A JavaScript exception is a value: \<open>TypeError\<close> is raised by reading a property of
  \<open>undefined\<close>, \<open>IndexOutOfRange\<close> by the circular list on an invalid index.
\<close>

datatype error = TypeError | IndexOutOfRange

section \<open>Cells\<close>

text \<open>A cell is the array \<open>[attribute, character, width]\<close>; the attribute is a 32-bit integer.\<close>

type_synonym cell = "32 word \<times> string \<times> nat"

section \<open>The circular list\<close>

text \<open>
  Modelled from the spec: \<open>utils/CircularList.js\<close> is imported by the reflow index but is
  not among the sources. The spec describes it as a bounded circular sequence with capacity
  \<open>maxLength\<close>; the model keeps the retained elements oldest first.
\<close>

record 'a CircularList =
  maxLength :: nat
  items :: "'a list"

text \<open>Modelled from the spec: the constructor of the missing circular list, empty with the given capacity.\<close>

definition CircularList_new :: "nat \<Rightarrow> 'a CircularList" where
  "CircularList_new n = \<lparr>maxLength = n, items = []\<rparr>"

text \<open>Modelled from the spec: the \<open>length\<close> getter of the missing circular list.\<close>

definition cl_length :: "'a CircularList \<Rightarrow> nat" where
  "cl_length c = length (items c)"

text \<open>
  Modelled from the spec: \<open>get(i)\<close> of the missing circular list. "All indices are validated
  against current length; an invalid index fails with IndexOutOfRange."
\<close>

definition cl_get :: "'a CircularList \<Rightarrow> nat \<Rightarrow> error + 'a" where
  "cl_get c i = (if i < cl_length c then Inr (items c ! i) else Inl IndexOutOfRange)"

text \<open>
  Modelled from the spec: \<open>push(v)\<close> of the missing circular list, which "evicts oldest if
  at capacity, shifting the logical index origin".
\<close>

definition cl_push :: "'a \<Rightarrow> 'a CircularList \<Rightarrow> 'a CircularList" where
  "cl_push v c =
     (let xs = items c @ [v]
      in c\<lparr>items := drop (length xs - maxLength c) xs\<rparr>)"

text \<open>
  Modelled from the spec: \<open>trimStart(count)\<close> of the missing circular list, "drop the oldest
  count elements".
\<close>

definition cl_trimStart :: "nat \<Rightarrow> 'a CircularList \<Rightarrow> 'a CircularList" where
  "cl_trimStart count c = c\<lparr>items := drop count (items c)\<rparr>"

text \<open>
  Modelled from the spec: \<open>filter(p)\<close> of the missing circular list, the retained elements
  that satisfy \<open>p\<close>, in order.
\<close>

definition cl_filter :: "('a \<Rightarrow> bool) \<Rightarrow> 'a CircularList \<Rightarrow> 'a list" where
  "cl_filter p c = filter p (items c)"

section \<open>The reflow index (class LineWrap)\<close>

text \<open>
  An entry of \<open>_rowIndices\<close>. The field \<open>lineLength\<close> is absent (\<open>undefined\<close>) until
  \<open>setLineLength\<close> creates it as an array of samples. Numbers are modelled as integers.
\<close>

record RowIndex =
  lineIndex :: int
  startIndex :: int
  endIndex :: int
  lineLength :: "int list option"

type_synonym LineWrap = "RowIndex CircularList"

text \<open>The constructor (lines 17 to 19 of the latest revision, \<open>unnamed/part_000\<close>).\<close>

definition LineWrap_new :: "nat \<Rightarrow> LineWrap" where
  "LineWrap_new n = CircularList_new n"

text \<open>The position of the first element that satisfies a predicate: \<open>filter(p)[0]\<close> as a reference.\<close>

fun first_index :: "('a \<Rightarrow> bool) \<Rightarrow> 'a list \<Rightarrow> nat option" where
  "first_index p [] = None"
| "first_index p (x # xs) =
     (if p x then Some 0 else map_option Suc (first_index p xs))"

text \<open>
  \<open>trimStart(count)\<close> (lines 30 to 37): the circular list drops the oldest entries, then
  the loop takes \<open>get(i)\<close> for every \<open>i\<close> below \<open>maxLength\<close> and subtracts \<open>count\<close> from
  the three fields of the entry, in place. Where \<open>get(i)\<close> gives no entry the call ends by
  the exception and the entries before \<open>i\<close> stay as the loop has left them: the result is
  the index after the call, with the exception when there is one.
\<close>

definition shift_entry :: "int \<Rightarrow> RowIndex \<Rightarrow> RowIndex" where
  "shift_entry count r =
     r\<lparr>lineIndex := lineIndex r - count,
       startIndex := startIndex r - count,
       endIndex := endIndex r - count\<rparr>"

definition trimStart_step :: "int \<Rightarrow> LineWrap \<times> error option \<Rightarrow> nat \<Rightarrow> LineWrap \<times> error option" where
  "trimStart_step count acc i =
     (case snd acc of
        Some e \<Rightarrow> acc
      | None \<Rightarrow>
          (case cl_get (fst acc) i of
             Inl e \<Rightarrow> (fst acc, Some e)
           | Inr r \<Rightarrow> ((fst acc)\<lparr>items := (items (fst acc))[i := shift_entry count r]\<rparr>, None)))"

definition trimStart :: "nat \<Rightarrow> LineWrap \<Rightarrow> LineWrap \<times> error option" where
  "trimStart count s =
     foldl (trimStart_step (int count)) (cl_trimStart count s, None) [0 ..< maxLength s]"

text \<open>
  \<open>setLineLength(lineIndex, length, width)\<close> (lines 42 to 56): the first entry with the
  given \<open>lineIndex\<close> gets one more sample in its \<open>lineLength\<close> array.
\<close>

definition setLineLength :: "int \<Rightarrow> int \<Rightarrow> int \<Rightarrow> LineWrap \<Rightarrow> LineWrap" where
  "setLineLength lineIndex' length' width s =
     (case first_index (\<lambda>r. lineIndex r = lineIndex') (items s) of
        None \<Rightarrow> s
      | Some i \<Rightarrow>
          (let lineStats = items s ! i;
               samples = (case lineLength lineStats of None \<Rightarrow> [] | Some l \<Rightarrow> l);
               sample = (endIndex lineStats - startIndex lineStats) * width + length'
           in s\<lparr>items := (items s)[i := lineStats\<lparr>lineLength := Some (samples @ [sample])\<rparr>]\<rparr>))"

text \<open>
  \<open>getRowIndex(index)\<close> (lines 57 to 65): the first entry whose span contains the row, and
  \<open>undefined\<close> (\<open>None\<close>) when there is none.
\<close>

definition covers :: "int \<Rightarrow> RowIndex \<Rightarrow> bool" where
  "covers index r \<longleftrightarrow> index \<ge> startIndex r \<and> index \<le> endIndex r"

definition getRowIndex :: "int \<Rightarrow> LineWrap \<Rightarrow> RowIndex option" where
  "getRowIndex index s =
     (case cl_filter (covers index) s of
        [] \<Rightarrow> None
      | lineContainingRowIndex # _ \<Rightarrow> Some lineContainingRowIndex)"

text \<open>
  \<open>addRowToLine(index)\<close> (lines 66 to 80): the first entry whose span contains the row
  grows by one row (a \<open>TypeError\<close> when there is none); then, for every \<open>i\<close> from its
  \<open>lineIndex + 1\<close> up to the length of the index, the first entry with \<open>lineIndex\<close> equal
  to \<open>i\<close>, if any, moves down by one row.
\<close>

definition shift_line :: "RowIndex list \<Rightarrow> int \<Rightarrow> RowIndex list" where
  "shift_line rs i =
     (case first_index (\<lambda>r. lineIndex r = i) rs of
        None \<Rightarrow> rs
      | Some k \<Rightarrow>
          rs[k := (rs ! k)\<lparr>startIndex := startIndex (rs ! k) + 1,
                           endIndex := endIndex (rs ! k) + 1\<rparr>])"

definition addRowToLine :: "int \<Rightarrow> LineWrap \<Rightarrow> error + LineWrap" where
  "addRowToLine index s =
     (case first_index (covers index) (items s) of
        None \<Rightarrow> Inl TypeError
      | Some p \<Rightarrow>
          (let lineContainingRowIndex = (items s ! p)\<lparr>endIndex := endIndex (items s ! p) + 1\<rparr>;
               rs = (items s)[p := lineContainingRowIndex]
           in Inr (s\<lparr>items :=
                 foldl shift_line rs
                   [lineIndex lineContainingRowIndex + 1 .. int (cl_length s) - 1]\<rparr>)))"

text \<open>
  \<open>push(value)\<close> (lines 92 to 102): the new entry follows the last one and has one row;
  the value itself is not used.
\<close>

definition push :: "'v \<Rightarrow> LineWrap \<Rightarrow> LineWrap" where
  "push v s =
     (let lineIndex' = (if cl_length s \<noteq> 0 then lineIndex (items s ! (cl_length s - 1)) + 1 else 0);
          startIndex' = (if cl_length s \<noteq> 0 then endIndex (items s ! (cl_length s - 1)) + 1 else 0);
          endIndex' = startIndex'
      in cl_push \<lparr>lineIndex = lineIndex', startIndex = startIndex', endIndex = endIndex',
                  lineLength = None\<rparr> s)"

text \<open>
  \<open>Math.ceil(a / b)\<close> on integers, for a divisor other than 0 (the quotient by 0 is
  infinite or NaN in JavaScript and has no integer value).
\<close>

definition Math_ceil_div :: "int \<Rightarrow> int \<Rightarrow> int" where
  "Math_ceil_div a b = \<lceil>real_of_int a / real_of_int b\<rceil>"

text \<open>
  The number a cached \<open>lineLength\<close> array stands for when it is divided: the empty array is
  0, a one-element array is its element, a longer one is NaN (\<open>None\<close>).
\<close>

fun to_number :: "int list \<Rightarrow> int option" where
  "to_number [] = Some 0"
| "to_number [n] = Some n"
| "to_number (n # m # ns) = None"

text \<open>
  \<open>Math.ceil(lineLength / length) > 0 ? Math.ceil(lineLength / length) : 1\<close>; a comparison
  with NaN is false.
\<close>

definition newRowCountInLine :: "int option \<Rightarrow> int \<Rightarrow> int" where
  "newRowCountInLine lineLength' length' =
     (case lineLength' of
        None \<Rightarrow> 1
      | Some l \<Rightarrow> if Math_ceil_div l length' > 0 then Math_ceil_div l length' else 1)"

text \<open>
  The loop of \<open>changeLineLength\<close> over the retained entries, with the loop variables
  \<open>prevLine\<close> and \<open>foundCursor\<close>. \<open>lines\<close> is the buffer's \<open>get\<close>.
\<close>

fun changeLineLength_loop ::
  "(int \<Rightarrow> 'l option) \<Rightarrow> int \<Rightarrow> int \<Rightarrow> RowIndex option \<Rightarrow> bool \<Rightarrow> RowIndex list \<Rightarrow> RowIndex list"
where
  "changeLineLength_loop lines length' cursorPos prevLine foundCursor [] = []"
| "changeLineLength_loop lines length' cursorPos prevLine foundCursor (lineStats # rest) =
     (case lines (lineIndex lineStats) of
        Some line \<Rightarrow>
          (let lineLength' =
                 (case lineLength lineStats of
                    Some samples \<Rightarrow> to_number samples
                  | None \<Rightarrow> if foundCursor then Some 0 else Some cursorPos);
               foundCursor' = (case lineLength lineStats of Some samples \<Rightarrow> foundCursor | None \<Rightarrow> True);
               startIndex' = (case prevLine of Some p \<Rightarrow> endIndex p + 1 | None \<Rightarrow> startIndex lineStats);
               endIndex' = startIndex' + newRowCountInLine lineLength' length' - 1;
               lineStats' = lineStats\<lparr>startIndex := startIndex', endIndex := endIndex'\<rparr>
           in lineStats' # changeLineLength_loop lines length' cursorPos (Some lineStats') foundCursor' rest)
      | None \<Rightarrow>
          (let startIndex' = (case prevLine of Some p \<Rightarrow> endIndex p + 1 | None \<Rightarrow> startIndex lineStats);
               endIndex' = startIndex' + (endIndex lineStats - startIndex lineStats);
               lineStats' = lineStats\<lparr>startIndex := startIndex', endIndex := endIndex'\<rparr>
           in lineStats' # changeLineLength_loop lines length' cursorPos (Some lineStats') foundCursor rest))"

text \<open>\<open>changeLineLength(lines, length, cursorPos)\<close> (lines 103 to 139).\<close>

definition changeLineLength :: "(int \<Rightarrow> 'l option) \<Rightarrow> int \<Rightarrow> int \<Rightarrow> LineWrap \<Rightarrow> LineWrap" where
  "changeLineLength lines length' cursorPos s =
     s\<lparr>items := changeLineLength_loop lines length' cursorPos None False (items s)\<rparr>"

text \<open>The getter \<open>rowCount\<close> (lines 140 to 148).\<close>

definition rowCount :: "LineWrap \<Rightarrow> int" where
  "rowCount s = foldl (\<lambda>count lineStats. count + (endIndex lineStats - startIndex lineStats + 1)) 0 (items s)"

section \<open>The render scheduler (class Renderer)\<close>

text \<open>The scheduler of \<open>Renderer.ts\<close>: \<open>queueRefresh\<close> (lines 98 to 103) and \<open>_refreshLoop\<close> (lines 109 to 143).\<close>

definition MAX_REFRESH_FRAME_SKIP :: int where
  "MAX_REFRESH_FRAME_SKIP = 5"

record DirtyRange =
  start :: int
  end' :: int

text \<open>
  \<open>refreshAnimationFrame\<close> is \<open>True\<close> while a frame callback is armed (the field holds the
  handle that \<open>requestAnimationFrame\<close> returned) and \<open>False\<close> when it is \<open>null\<close>.
\<close>

record Renderer =
  refreshRowsQueue :: "DirtyRange list"
  refreshFramesSkipped :: int
  refreshAnimationFrame :: bool

text \<open>
  The fields of the terminal that the renderer reads. \<open>term_lines\<close> is \<open>lines.get\<close>,
  \<open>children\<close> the number of row elements, \<open>term_x\<close> and \<open>term_y\<close> the cursor.
\<close>

record ITerminal =
  ybase :: int
  ydisp :: int
  term_lines :: "int \<Rightarrow> cell list option"
  rows :: int
  cols :: int
  writeBuffer :: "string list"
  children :: nat
  cursorHidden :: bool
  cursorState :: int
  term_x :: int
  term_y :: int
  defAttr :: "32 word"

text \<open>What a call does to the outside: it arms a frame callback or dispatches \<open>_refresh(start, end)\<close>.\<close>

datatype effect = RequestAnimationFrame | Refresh int int

definition Renderer_new :: Renderer where
  "Renderer_new = \<lparr>refreshRowsQueue = [], refreshFramesSkipped = 0, refreshAnimationFrame = False\<rparr>"

text \<open>\<open>queueRefresh(start, end)\<close>: the range is queued, and a frame callback is armed when none is.\<close>

definition queueRefresh :: "int \<Rightarrow> int \<Rightarrow> Renderer \<Rightarrow> Renderer \<times> effect list" where
  "queueRefresh s e r =
     (let r1 = r\<lparr>refreshRowsQueue := refreshRowsQueue r @ [\<lparr>start = s, end' = e\<rparr>]\<rparr>
      in if \<not> refreshAnimationFrame r1
         then (r1\<lparr>refreshAnimationFrame := True\<rparr>, [RequestAnimationFrame])
         else (r1, []))"

text \<open>One round of the loop of lines 131 to 138 over the queued ranges after the first.\<close>

definition merge_range :: "int \<times> int \<Rightarrow> DirtyRange \<Rightarrow> int \<times> int" where
  "merge_range acc q =
     (let s = (if start q < fst acc then start q else fst acc);
          e = (if end' q > snd acc then end' q else snd acc)
      in (s, e))"

text \<open>
  \<open>_refreshLoop()\<close>: the counter of skipped frames is compared and then incremented, and
  only when the write buffer is not empty (\<open>&&\<close> does not evaluate its right side
  otherwise). A frame that is not skipped resets the counter, merges the queue, clears it
  and dispatches one refresh; reading the first range of an empty queue is a \<open>TypeError\<close>.
\<close>

definition refreshLoop :: "ITerminal \<Rightarrow> Renderer \<Rightarrow> error + Renderer \<times> effect list" where
  "refreshLoop t r =
     (let skipFrame = (length (writeBuffer t) > 0 \<and> refreshFramesSkipped r \<le> MAX_REFRESH_FRAME_SKIP);
          r1 = (if length (writeBuffer t) > 0
                then r\<lparr>refreshFramesSkipped := refreshFramesSkipped r + 1\<rparr> else r)
      in if skipFrame
         then Inr (r1\<lparr>refreshAnimationFrame := True\<rparr>, [RequestAnimationFrame])
         else
           (let r2 = r1\<lparr>refreshFramesSkipped := 0\<rparr>
            in if length (refreshRowsQueue r2) > 4
               then Inr (r2\<lparr>refreshRowsQueue := [], refreshAnimationFrame := False\<rparr>,
                         [Refresh 0 (rows t - 1)])
               else
                 (case refreshRowsQueue r2 of
                    [] \<Rightarrow> Inl TypeError
                  | q0 # qs \<Rightarrow>
                      (let se = foldl merge_range (start q0, end' q0) qs
                       in Inr (r2\<lparr>refreshRowsQueue := [], refreshAnimationFrame := False\<rparr>,
                               [Refresh (fst se) (snd se)])))))"

section \<open>The cell compositor\<close>

text \<open>\<open>Array.prototype.slice(start, end)\<close>: negative arguments count from the end.\<close>

definition js_slice :: "'a list \<Rightarrow> int \<Rightarrow> int \<Rightarrow> 'a list" where
  "js_slice xs a b =
     (let len = int (length xs);
          k = (if a < 0 then max (len + a) 0 else min a len);
          final = (if b < 0 then max (len + b) 0 else min b len)
      in take (nat (final - k)) (drop (nat k) xs))"

text \<open>
  \<open>trimBlank(line, min, blank)\<close> (lines 38 to 61). The loop runs \<open>i\<close> down from the last
  cell and stops at the first cell that is not to be trimmed; its result is that \<open>i\<close>, or
  \<open>-1\<close>.
\<close>

function trimBlank_loop :: "cell list \<Rightarrow> int \<Rightarrow> 32 word \<Rightarrow> int \<Rightarrow> int" where
  "trimBlank_loop line min' blank i =
     (if i \<ge> 0 then
        (if i \<ge> min' then
           (if fst (snd (line ! nat i)) \<noteq> '' '' then i
            else trimBlank_loop line min' blank (i - 1))
         else
           (if fst (snd (line ! nat i)) \<noteq> '' '' \<or> fst (line ! nat i) \<noteq> blank then i
            else trimBlank_loop line min' blank (i - 1)))
      else i)"
  by pat_completeness auto
termination
  by (relation "measure (\<lambda>(line, min', blank, i). nat (i + 1))") auto

definition trimBlank :: "cell list \<Rightarrow> int \<Rightarrow> 32 word \<Rightarrow> cell list" where
  "trimBlank line min' blank =
     (let i = trimBlank_loop line min' blank (int (length line) - 1);
          i = (if i < min' then min' else i + 2)
      in js_slice line 0 i)"

text \<open>\<open>chunkArray(array, chunkSize)\<close> (lines 63 to 72).\<close>

text \<open>The loop of \<open>chunkArray\<close>; it does not return when \<open>chunkSize\<close> is not positive and the array is not empty.\<close>

partial_function (option) chunkArray_loop ::
  "'a list \<Rightarrow> int \<Rightarrow> int \<Rightarrow> 'a list list \<Rightarrow> 'a list list option"
where
  "chunkArray_loop array chunkSize i temparray =
     (if i < int (length array)
      then chunkArray_loop array chunkSize (i + chunkSize)
             (temparray @ [js_slice array i (i + chunkSize)])
      else Some temparray)"

definition chunkArray :: "'a list \<Rightarrow> int \<Rightarrow> 'a list list option" where
  "chunkArray array chunkSize = chunkArray_loop array chunkSize 0 []"

text \<open>
  Lines 210 to 216 of \<open>_refresh\<close>: a line longer than the width is trimmed and chunked, and
  the last chunk is the line to composite; an empty chunk list ends the refresh.
\<close>

datatype overflow = Return | Composite "cell list" "cell list list"

definition split_overflow ::
  "cell list \<Rightarrow> int \<Rightarrow> 32 word \<Rightarrow> cell list list \<Rightarrow> overflow option" where
  "split_overflow line width blank pending =
     (if int (length line) > width then
        (case chunkArray (trimBlank line width blank) width of
           None \<Rightarrow> None
         | Some buf \<Rightarrow>
             if buf = [] then Some Return else Some (Composite (last buf) (butlast buf)))
      else Some (Composite line pending))"

text \<open>
  The row loop of \<open>_refresh\<close> (lines 185 to 362). Its variables are \<open>y\<close>,
  \<open>overflowBuffer\<close>, \<open>inOverflow\<close> and \<open>renderCount\<close>. The markup of a row (lines 222 to
  358) is a function of the line and of the cursor column \<open>x\<close>; the model records, for each
  assignment \<open>children[k].innerHTML = out\<close>, the index \<open>k\<close> with that line and that column.
  The detaching of the row container and the event at the end are left out.
\<close>

record refresh_state =
  row_y :: int
  overflowBuffer :: "cell list list"
  inOverflow :: bool
  renderCount :: int
  painted :: "(int \<times> cell list \<times> int) list"

text \<open>\<open>children[k]\<close> is an element.\<close>

definition child_exists :: "ITerminal \<Rightarrow> int \<Rightarrow> bool" where
  "child_exists t k \<longleftrightarrow> 0 \<le> k \<and> k < int (children t)"

text \<open>The cursor column of the row \<open>y\<close> (lines 224 to 230): \<open>-1\<close> when the cursor is elsewhere or off.\<close>

definition cursor_column :: "ITerminal \<Rightarrow> int \<Rightarrow> int" where
  "cursor_column t y =
     (if term_y t = y - (ybase t - ydisp t) \<and> cursorState t \<noteq> 0 \<and> \<not> cursorHidden t
      then term_x t else - 1)"

text \<open>
  How the loop ends: by the \<open>return\<close> on an empty list of chunks, or by its condition. The
  result is \<open>None\<close> when \<open>chunkArray\<close> does not return.
\<close>

datatype outcome = Returned | Finished

function refresh_loop ::
  "ITerminal \<Rightarrow> int \<Rightarrow> int \<Rightarrow> refresh_state \<Rightarrow> (error + outcome \<times> refresh_state) option"
where
  "refresh_loop t end1 rowsToRender st =
     (if renderCount st \<le> rowsToRender then
        (let st1 = (if overflowBuffer st \<noteq> []
                    then st\<lparr>overflowBuffer := butlast (overflowBuffer st), inOverflow := True\<rparr>
                    else st\<lparr>inOverflow := False, row_y := row_y st - 1\<rparr>);
             line = (if overflowBuffer st \<noteq> []
                     then Some (last (overflowBuffer st))
                     else term_lines t (row_y st1 + ydisp t))
         in (case line of
               None \<Rightarrow>
                 refresh_loop t end1 rowsToRender (st1\<lparr>renderCount := renderCount st1 + 1\<rparr>)
             | Some line \<Rightarrow>
                 if \<not> child_exists t (row_y st1)
                 then refresh_loop t end1 rowsToRender (st1\<lparr>renderCount := renderCount st1 + 1\<rparr>)
                 else
                   (case split_overflow line (cols t) (defAttr t) (overflowBuffer st1) of
                      None \<Rightarrow> None
                    | Some Return \<Rightarrow> Some (Inr (Returned, st1))
                    | Some (Composite line' pending) \<Rightarrow>
                        (let st2 = st1\<lparr>overflowBuffer := pending,
                                       renderCount := renderCount st1 + 1\<rparr>;
                             k = end1 + 1 - renderCount st2
                         in if child_exists t k
                            then refresh_loop t end1 rowsToRender
                                   (st2\<lparr>painted := painted st2
                                           @ [(k, line', cursor_column t (row_y st2))]\<rparr>)
                            else Some (Inl TypeError)))))
      else Some (Inr (Finished, st)))"
  by pat_completeness auto
termination
  by (relation "measure (\<lambda>(t, end1, rowsToRender, st). nat (rowsToRender + 1 - renderCount st))")
     (auto split: if_splits)

text \<open>
  \<open>_refresh(start, end)\<close> up to the loop: \<open>y\<close> starts from the given \<open>end\<close>, which is then
  cut down to the last row.
\<close>

definition refresh :: "ITerminal \<Rightarrow> int \<Rightarrow> int \<Rightarrow> (error + outcome \<times> refresh_state) option" where
  "refresh t start' end0 =
     (let y = end0 + 1;
          end1 = (if end0 \<ge> rows t then rows t - 1 else end0);
          rowsToRender = end1 - start'
      in refresh_loop t end1 rowsToRender
           \<lparr>row_y = y, overflowBuffer = [], inOverflow = False, renderCount = 0, painted = []\<rparr>)"

text \<open>The flags of an attribute (enum \<open>FLAGS\<close>).\<close>

definition BOLD :: "32 word" where "BOLD = 1"
definition UNDERLINE :: "32 word" where "UNDERLINE = 2"
definition BLINK :: "32 word" where "BLINK = 4"
definition INVERSE :: "32 word" where "INVERSE = 8"
definition INVISIBLE :: "32 word" where "INVISIBLE = 16"

datatype className =
  xterm_bold | xterm_underline | xterm_blink | xterm_hidden
  | xterm_bg_color int | xterm_color int

record span =
  classNames :: "className list"
  bg :: int
  fg :: int

text \<open>
  The three fields of an attribute: \<open>data & 0x1ff\<close>, \<open>(data >> 9) & 0x1ff\<close> and
  \<open>data >> 18\<close>.
\<close>

definition attr_bg :: "32 word \<Rightarrow> int" where
  "attr_bg data = sint (data AND 0x1ff)"

definition attr_fg :: "32 word \<Rightarrow> int" where
  "attr_fg data = sint (signed_drop_bit 9 data AND 0x1ff)"

definition attr_flags :: "32 word \<Rightarrow> 32 word" where
  "attr_flags data = signed_drop_bit 18 data"

text \<open>
  Lines 260 to 317 of \<open>_refresh\<close>: the decoding of an attribute other than the default
  and the cursor into the classes of the opened span, with the final \<open>bg\<close> and \<open>fg\<close>.
  \<open>brokenBold\<close> is the module variable that the constructor sets from the document.
\<close>

definition decode_attr :: "bool \<Rightarrow> 32 word \<Rightarrow> span" where
  "decode_attr brokenBold data =
     (let classNames = [];
          bg = attr_bg data;
          fg = attr_fg data;
          flags = attr_flags data;
          classNames = (if flags AND BOLD \<noteq> 0 \<and> \<not> brokenBold
                        then classNames @ [xterm_bold] else classNames);
          fg = (if flags AND BOLD \<noteq> 0 \<and> fg < 8 then fg + 8 else fg);
          classNames = (if flags AND UNDERLINE \<noteq> 0
                        then classNames @ [xterm_underline] else classNames);
          classNames = (if flags AND BLINK \<noteq> 0
                        then classNames @ [xterm_blink] else classNames);
          bgfg = (if flags AND INVERSE \<noteq> 0 then (fg, bg) else (bg, fg));
          bg = fst bgfg;
          fg = snd bgfg;
          fg = (if flags AND INVERSE \<noteq> 0 \<and> flags AND 1 \<noteq> 0 \<and> fg < 8 then fg + 8 else fg);
          classNames = (if flags AND INVISIBLE \<noteq> 0
                        then classNames @ [xterm_hidden] else classNames);
          bg = (if flags AND INVERSE \<noteq> 0 \<and> bg = 257 then 15 else bg);
          fg = (if flags AND INVERSE \<noteq> 0 \<and> fg = 256 then 0 else fg);
          classNames = (if bg < 256 then classNames @ [xterm_bg_color bg] else classNames);
          classNames = (if fg < 256 then classNames @ [xterm_color fg] else classNames)
      in \<lparr>classNames = classNames, bg = bg, fg = fg\<rparr>)"

section \<open>Predicates on the reflow index\<close>

text \<open>The number of physical rows of an entry, as \<open>rowCount\<close> counts them.\<close>

definition rowsOf :: "RowIndex \<Rightarrow> int" where
  "rowsOf r = endIndex r - startIndex r + 1"

text \<open>Each entry starts on the row after the end of the entry before it.\<close>

fun adjacent :: "RowIndex list \<Rightarrow> bool" where
  "adjacent [] = True"
| "adjacent [a] = True"
| "adjacent (a # b # rest) = (startIndex b = endIndex a + 1 \<and> adjacent (b # rest))"

text \<open>
  The spans of the entries, in order, are not empty and cover the rows from \<open>lo\<close> up to but
  not including \<open>hi\<close>, each row once.
\<close>

fun tiles :: "int \<Rightarrow> RowIndex list \<Rightarrow> int \<Rightarrow> bool" where
  "tiles lo [] hi = (lo = hi)"
| "tiles lo (r # rs) hi =
     (startIndex r = lo \<and> startIndex r \<le> endIndex r \<and> tiles (endIndex r + 1) rs hi)"

text \<open>The entry at position \<open>k\<close> describes the logical line \<open>k\<close>.\<close>

definition aligned :: "RowIndex list \<Rightarrow> bool" where
  "aligned rs \<longleftrightarrow> list_all2 (\<lambda>r k. lineIndex r = int k) rs [0 ..< length rs]"

text \<open>The first row of the first entry (0 for an empty index).\<close>

definition first_start :: "LineWrap \<Rightarrow> int" where
  "first_start s = (case items s of [] \<Rightarrow> 0 | r # _ \<Rightarrow> startIndex r)"

definition shift1 :: "RowIndex \<Rightarrow> RowIndex" where
  "shift1 r = r\<lparr>startIndex := startIndex r + 1, endIndex := endIndex r + 1\<rparr>"

text \<open>The start that \<open>changeLineLength\<close> gives an entry, from \<open>prevLine\<close>.\<close>

definition next_start :: "RowIndex option \<Rightarrow> RowIndex \<Rightarrow> int" where
  "next_start prev r = (case prev of Some p \<Rightarrow> endIndex p + 1 | None \<Rightarrow> startIndex r)"

text \<open>The value of \<open>foundCursor\<close> after the loop body has run on an entry.\<close>

definition found_after :: "(int \<Rightarrow> 'l option) \<Rightarrow> bool \<Rightarrow> RowIndex \<Rightarrow> bool" where
  "found_after lines found h =
     (case lines (lineIndex h) of
        None \<Rightarrow> found
      | Some line \<Rightarrow> (case lineLength h of Some samples \<Rightarrow> found | None \<Rightarrow> True))"

text \<open>An entry whose line is in the buffer and that has no cached length.\<close>

definition uncached_retained :: "(int \<Rightarrow> 'l option) \<Rightarrow> RowIndex \<Rightarrow> bool" where
  "uncached_retained lines r \<longleftrightarrow> lines (lineIndex r) \<noteq> None \<and> lineLength r = None"

text \<open>
  The length that decides the row count of the retained entry at position \<open>i\<close>: its cached
  sample, otherwise the cursor position for the first retained entry without a cache and 0
  for the later ones.
\<close>

definition significantLength :: "(int \<Rightarrow> 'l option) \<Rightarrow> int \<Rightarrow> RowIndex list \<Rightarrow> nat \<Rightarrow> int" where
  "significantLength lines cursorPos rs i =
     (case lineLength (rs ! i) of
        Some samples \<Rightarrow> hd samples
      | None \<Rightarrow> if list_ex (uncached_retained lines) (take i rs) then 0 else cursorPos)"

text \<open>The cache of an entry is absent or holds one sample.\<close>

definition single_sample :: "RowIndex \<Rightarrow> bool" where
  "single_sample r = (case lineLength r of None \<Rightarrow> True | Some samples \<Rightarrow> length samples = 1)"

subsection \<open>The significant length as the specification words it\<close>

text \<open>
  The specification takes, for a line without a cached length, "the live content length with
  trailing blanks stripped to a one-character minimum". These definitions follow those words
  and are compared with the code below.
\<close>

definition live_length :: "cell list \<Rightarrow> int" where
  "live_length line = int (length (rev (dropWhile (\<lambda>c. fst (snd c) = '' '') (rev line))))"

definition claimed_significantLength :: "RowIndex \<Rightarrow> cell list \<Rightarrow> int" where
  "claimed_significantLength r line =
     (case lineLength r of
        Some samples \<Rightarrow> last samples
      | None \<Rightarrow> max 1 (live_length line))"

definition claimed_rowCountInLine :: "RowIndex \<Rightarrow> cell list \<Rightarrow> int \<Rightarrow> int" where
  "claimed_rowCountInLine r line width =
     max 1 (Math_ceil_div (claimed_significantLength r line) width)"

subsection \<open>Concrete buffers and states\<close>

definition cell_x :: cell where
  "cell_x = (0, ''x'', 1)"

text \<open>A buffer that holds two lines of 25 cells, none of them blank.\<close>

definition lines_two_long :: "int \<Rightarrow> cell list option" where
  "lines_two_long i = (if i = 0 \<or> i = 1 then Some (replicate 25 cell_x) else None)"

text \<open>A buffer that holds an empty line at every index.\<close>

definition lines_all_empty :: "int \<Rightarrow> cell list option" where
  "lines_all_empty i = Some []"

definition state_two :: LineWrap where
  "state_two = push () (push () (LineWrap_new 5))"

definition state_three :: LineWrap where
  "state_three = push () (push () (push () (LineWrap_new 5)))"

text \<open>Three entries, the second with one cached length of 25.\<close>

definition state_cached :: LineWrap where
  "state_cached = setLineLength 1 25 10 state_three"

text \<open>Two and three pushes into an index of capacity 1 and 2: the oldest entry is evicted.\<close>

definition state_evicted_one :: LineWrap where
  "state_evicted_one = push () (push () (LineWrap_new 1))"

definition state_evicted_two :: LineWrap where
  "state_evicted_two = push () (push () (push () (LineWrap_new 2)))"

text \<open>An index of capacity 2 that is full.\<close>

definition state_full :: LineWrap where
  "state_full = push () (push () (LineWrap_new 2))"

section \<open>Predicates and runs of the scheduler and the compositor\<close>

text \<open>The calls \<open>queueRefresh(start, end)\<close> for a list of ranges, one after the other.\<close>

definition queueRefreshes :: "DirtyRange list \<Rightarrow> Renderer \<Rightarrow> Renderer" where
  "queueRefreshes qs r = foldl (\<lambda>r q. fst (queueRefresh (start q) (end' q) r)) r qs"

text \<open>The condition \<open>skipFrame\<close> of the frame callback.\<close>

definition frame_skipped :: "ITerminal \<Rightarrow> Renderer \<Rightarrow> bool" where
  "frame_skipped t r \<longleftrightarrow>
     length (writeBuffer t) > 0 \<and> refreshFramesSkipped r \<le> MAX_REFRESH_FRAME_SKIP"

text \<open>The frame callback fired \<open>n\<close> times in a row on the same terminal, with all its effects.\<close>

fun run_frames :: "nat \<Rightarrow> ITerminal \<Rightarrow> Renderer \<Rightarrow> error + Renderer \<times> effect list" where
  "run_frames 0 t r = Inr (r, [])"
| "run_frames (Suc n) t r =
     (case refreshLoop t r of
        Inl e \<Rightarrow> Inl e
      | Inr (r1, es1) \<Rightarrow>
          (case run_frames n t r1 of
             Inl e \<Rightarrow> Inl e
           | Inr (r2, es2) \<Rightarrow> Inr (r2, es1 @ es2)))"

text \<open>A terminal of 24 rows and 10 columns without content, idle and with a pending write.\<close>

definition idle_terminal :: ITerminal where
  "idle_terminal =
     \<lparr>ybase = 0, ydisp = 0, term_lines = (\<lambda>row. None), rows = 24, cols = 10, writeBuffer = [],
      children = 24, cursorHidden = False, cursorState = 1, term_x = 0, term_y = 0, defAttr = 0\<rparr>"

definition busy_terminal :: ITerminal where
  "busy_terminal = idle_terminal\<lparr>writeBuffer := [''a'']\<rparr>"

text \<open>A renderer with one queued range.\<close>

definition one_queued :: Renderer where
  "one_queued = fst (queueRefresh 3 4 Renderer_new)"

text \<open>The foreground after the promotion of a bold colour below 8.\<close>

definition promoted :: "32 word \<Rightarrow> int \<Rightarrow> int" where
  "promoted flags c = (if flags AND BOLD \<noteq> 0 \<and> c < 8 then c + 8 else c)"

text \<open>
  Attributes: inverse with foreground 3 and background 257; inverse with foreground 257 and
  background 256; bold with foreground 3 and background 0.
\<close>

definition attr_inverse_bg257 :: "32 word" where
  "attr_inverse_bg257 = 0x200701"

definition attr_inverse_default :: "32 word" where
  "attr_inverse_default = 0x220300"

definition attr_bold_fg3 :: "32 word" where
  "attr_bold_fg3 = 0x40600"

text \<open>Bold and inverse with foreground 3 and background 0.\<close>

definition attr_bold_inverse_fg3 :: "32 word" where
  "attr_bold_inverse_fg3 = 0x240600"

text \<open>Two queued ranges.\<close>

definition two_ranges :: "DirtyRange list" where
  "two_ranges = [\<lparr>start = 3, end' = 4\<rparr>, \<lparr>start = 1, end' = 2\<rparr>]"

text \<open>Rows of 25 cells: without a blank, all blank, and blank after the first 12 cells.\<close>

definition blank_cell :: cell where
  "blank_cell = (0, '' '', 1)"

definition row_full :: "cell list" where
  "row_full = replicate 25 cell_x"

definition row_blank :: "cell list" where
  "row_blank = replicate 25 blank_cell"

definition row_half :: "cell list" where
  "row_half = replicate 12 cell_x @ replicate 13 blank_cell"

text \<open>A terminal of 3 rows and 10 columns whose row 2 is the row of 25 cells without a blank.\<close>

definition long_terminal :: ITerminal where
  "long_terminal =
     idle_terminal\<lparr>term_lines := (\<lambda>row. if row = 2 then Some row_full else None),
                    rows := 3, children := 3\<rparr>"

section \<open>Properties of the reflow index\<close>

subsection \<open>Arithmetic and evaluation\<close>

text \<open>On integers with a divisor other than 0 the ceiling of the quotient is an integer division.\<close>

lemma Math_ceil_div_code: "Math_ceil_div a b = - ((- a) div b)"
  unfolding Math_ceil_div_def ceiling_def
  by (metis floor_divide_of_int_eq minus_divide_left of_int_minus)

lemma Math_ceil_div_25_10: "Math_ceil_div 25 10 = 3" "Math_ceil_div 0 10 = 0"
  by (simp_all add: Math_ceil_div_code)

lemma Math_ceil_div_max:
  assumes "1 \<le> w"
  shows "max 1 (Math_ceil_div l w) = Math_ceil_div (max l 1) w"
proof (cases "1 \<le> l")
  case True
  with assms have "- l div w < 0" by (simp add: pos_imp_zdiv_neg_iff)
  with True show ?thesis by (simp add: Math_ceil_div_code max_def)
next
  case False
  with assms have "0 \<le> - l div w" by (simp add: pos_imp_zdiv_nonneg_iff)
  moreover from assms have "- 1 div w = - 1" by (simp add: div_eq_minus1)
  ultimately show ?thesis using False by (simp add: Math_ceil_div_code max_def)
qed

lemma newRowCountInLine_pos: "1 \<le> newRowCountInLine l w"
  by (simp add: newRowCountInLine_def split: option.splits)

lemma newRowCountInLine_max:
  "newRowCountInLine (Some l) w = max 1 (Math_ceil_div l w)"
  by (simp add: newRowCountInLine_def max_def)

lemma to_number_single: "length samples = 1 \<Longrightarrow> to_number samples = Some (hd samples)"
  by (cases samples rule: to_number.cases) simp_all

subsection \<open>What a tiling means\<close>

text \<open>
  A tiling covers every row of its range, covers no row outside it, and no row twice: the
  spans partition the range.
\<close>

lemma rowCount_sum: "rowCount s = sum_list (map rowsOf (items s))"
proof -
  have "foldl (\<lambda>count lineStats. count + (endIndex lineStats - startIndex lineStats + 1)) a rs
      = a + sum_list (map rowsOf rs)" for a rs
    by (induction rs arbitrary: a) (simp_all add: rowsOf_def)
  then show ?thesis by (simp add: rowCount_def)
qed

lemma rowCount_nth: "rowCount s = (\<Sum>i = 0 ..< length (items s). rowsOf (items s ! i))"
  by (simp add: rowCount_sum sum_list_sum_nth)

lemma tiles_le: "tiles lo rs hi \<Longrightarrow> lo \<le> hi"
proof (induction rs arbitrary: lo)
  case Nil
  then show ?case by simp
next
  case (Cons r rs)
  then have "endIndex r + 1 \<le> hi" "lo \<le> endIndex r" by auto
  then show ?case by simp
qed

lemma tiles_covered:
  "tiles lo rs hi \<Longrightarrow> lo \<le> x \<Longrightarrow> x < hi \<Longrightarrow> \<exists>r \<in> set rs. covers x r"
proof (induction rs arbitrary: lo)
  case Nil
  then show ?case by simp
next
  case (Cons r rs)
  show ?case
  proof (cases "x \<le> endIndex r")
    case True
    with Cons.prems show ?thesis by (simp add: covers_def)
  next
    case False
    with Cons.prems have "tiles (endIndex r + 1) rs hi" "endIndex r + 1 \<le> x" by simp_all
    from Cons.IH [OF this(1) this(2) Cons.prems(3)] show ?thesis by auto
  qed
qed

lemma tiles_outside:
  "tiles lo rs hi \<Longrightarrow> r \<in> set rs \<Longrightarrow> covers x r \<Longrightarrow> lo \<le> x \<and> x < hi"
proof (induction rs arbitrary: lo)
  case Nil
  then show ?case by simp
next
  case (Cons a rs)
  show ?case
  proof (cases "r = a")
    case True
    with Cons.prems tiles_le [of "endIndex a + 1" rs hi] show ?thesis
      by (auto simp: covers_def)
  next
    case False
    with Cons.prems have "r \<in> set rs" "tiles (endIndex a + 1) rs hi" by simp_all
    from Cons.IH [OF this(2) this(1) Cons.prems(3)] Cons.prems(1) show ?thesis by auto
  qed
qed

lemma tiles_unique:
  "tiles lo rs hi \<Longrightarrow> i < length rs \<Longrightarrow> j < length rs \<Longrightarrow> covers x (rs ! i) \<Longrightarrow> covers x (rs ! j) \<Longrightarrow> i = j"
proof (induction rs arbitrary: lo i j)
  case Nil
  then show ?case by simp
next
  case (Cons a rs)
  have t: "tiles (endIndex a + 1) rs hi" using Cons.prems(1) by simp
  show ?case
  proof (cases i)
    case 0
    show ?thesis
    proof (cases j)
      case j0: 0
      with 0 show ?thesis by simp
    next
      case (Suc j')
      with Cons.prems have "rs ! j' \<in> set rs" "covers x (rs ! j')" by simp_all
      from tiles_outside [OF t this] 0 Cons.prems(4) show ?thesis by (simp add: covers_def)
    qed
  next
    case (Suc i')
    note Si = this
    show ?thesis
    proof (cases j)
      case 0
      from Si Cons.prems have "rs ! i' \<in> set rs" "covers x (rs ! i')" by simp_all
      from tiles_outside [OF t this] 0 Cons.prems(5) show ?thesis by (simp add: covers_def)
    next
      case (Suc j')
      with Si Cons.prems Cons.IH [OF t, of i' j'] show ?thesis by simp
    qed
  qed
qed

lemma adjacent_nth:
  "adjacent rs \<longleftrightarrow> (\<forall>k. Suc k < length rs \<longrightarrow> startIndex (rs ! Suc k) = endIndex (rs ! k) + 1)"
proof (induction rs rule: adjacent.induct)
  case 1
  then show ?case by simp
next
  case (2 a)
  then show ?case by simp
next
  case (3 a b rest)
  show ?case
  proof
    assume l: "adjacent (a # b # rest)"
    show "\<forall>k. Suc k < length (a # b # rest) \<longrightarrow>
        startIndex ((a # b # rest) ! Suc k) = endIndex ((a # b # rest) ! k) + 1"
    proof (intro allI impI)
      fix k assume k: "Suc k < length (a # b # rest)"
      show "startIndex ((a # b # rest) ! Suc k) = endIndex ((a # b # rest) ! k) + 1"
      proof (cases k)
        case 0
        with l show ?thesis by simp
      next
        case (Suc k')
        with l k 3 show ?thesis by simp
      qed
    qed
  next
    assume r: "\<forall>k. Suc k < length (a # b # rest) \<longrightarrow>
        startIndex ((a # b # rest) ! Suc k) = endIndex ((a # b # rest) ! k) + 1"
    from r [rule_format, of 0] have h: "startIndex b = endIndex a + 1" by simp
    have "\<forall>k. Suc k < length (b # rest) \<longrightarrow>
        startIndex ((b # rest) ! Suc k) = endIndex ((b # rest) ! k) + 1"
    proof (intro allI impI)
      fix k assume "Suc k < length (b # rest)"
      with r [rule_format, of "Suc k"] show "startIndex ((b # rest) ! Suc k) = endIndex ((b # rest) ! k) + 1"
        by simp
    qed
    with 3 h show "adjacent (a # b # rest)" by simp
  qed
qed

lemma tiles_iff:
  "tiles lo rs hi \<longleftrightarrow>
     (rs = [] \<and> lo = hi) \<or>
     (rs \<noteq> [] \<and> startIndex (hd rs) = lo \<and> adjacent rs \<and> (\<forall>r \<in> set rs. startIndex r \<le> endIndex r)
        \<and> hi = lo + sum_list (map rowsOf rs))"
proof (induction rs arbitrary: lo)
  case Nil
  then show ?case by simp
next
  case (Cons a rs)
  show ?case
  proof (cases rs)
    case Nil
    then show ?thesis by (auto simp: rowsOf_def)
  next
    case (Cons b rest)
    with Cons.IH [of "endIndex a + 1"] show ?thesis
      by (auto simp: rowsOf_def)
  qed
qed

lemma aligned_nth: "aligned rs \<longleftrightarrow> (\<forall>k < length rs. lineIndex (rs ! k) = int k)"
  by (simp add: aligned_def list_all2_conv_all_nth)

subsection \<open>Point queries\<close>

lemma first_index_Some:
  "first_index p xs = Some k \<Longrightarrow> k < length xs \<and> p (xs ! k) \<and> (\<forall>j < k. \<not> p (xs ! j))"
proof (induction xs arbitrary: k)
  case Nil
  then show ?case by simp
next
  case (Cons x xs)
  show ?case
  proof (cases "p x")
    case True
    with Cons.prems show ?thesis by simp
  next
    case False
    with Cons.prems obtain k' where k': "first_index p xs = Some k'" "k = Suc k'" by auto
    from Cons.IH [OF k'(1)] False k'(2) show ?thesis
      by (auto simp: nth_Cons split: nat.splits)
  qed
qed

lemma first_index_None: "first_index p xs = None \<longleftrightarrow> (\<forall>x \<in> set xs. \<not> p x)"
  by (induction xs) auto

lemma getRowIndex_Some:
  "getRowIndex x s = Some r \<Longrightarrow> r \<in> set (items s) \<and> covers x r"
proof -
  assume a: "getRowIndex x s = Some r"
  then obtain rest where "filter (covers x) (items s) = r # rest"
    by (auto simp: getRowIndex_def cl_filter_def split: list.splits)
  then have "r \<in> set (filter (covers x) (items s))" by simp
  then show ?thesis by simp
qed

lemma getRowIndex_None:
  "getRowIndex x s = None \<longleftrightarrow> (\<forall>r \<in> set (items s). \<not> covers x r)"
proof -
  have "getRowIndex x s = None \<longleftrightarrow> filter (covers x) (items s) = []"
    by (simp add: getRowIndex_def cl_filter_def split: list.splits)
  then show ?thesis by (simp add: filter_empty_conv)
qed

subsection \<open>The full recompute\<close>

lemma loop_length:
  "length (changeLineLength_loop lines w c prev found rs) = length rs"
  by (induction rs arbitrary: prev found) (simp_all add: Let_def split: option.splits)

lemma loop_unfold:
  "changeLineLength_loop lines w c prev found (h # rest)
     = hd (changeLineLength_loop lines w c prev found (h # rest))
       # changeLineLength_loop lines w c
           (Some (hd (changeLineLength_loop lines w c prev found (h # rest))))
           (found_after lines found h) rest"
  by (cases "lines (lineIndex h)") (simp_all add: Let_def found_after_def)

lemma loop_head:
  "startIndex (hd (changeLineLength_loop lines w c prev found (h # rest))) = next_start prev h"
  "lineIndex (hd (changeLineLength_loop lines w c prev found (h # rest))) = lineIndex h"
  "lineLength (hd (changeLineLength_loop lines w c prev found (h # rest))) = lineLength h"
  "lines (lineIndex h) = None \<Longrightarrow>
     rowsOf (hd (changeLineLength_loop lines w c prev found (h # rest))) = rowsOf h"
  "lines (lineIndex h) \<noteq> None \<Longrightarrow>
     1 \<le> rowsOf (hd (changeLineLength_loop lines w c prev found (h # rest)))"
  using newRowCountInLine_pos [of _ w]
  by (cases "lines (lineIndex h)"; simp add: Let_def next_start_def rowsOf_def)+

lemma loop_adjacent:
  "adjacent (changeLineLength_loop lines w c prev found rs)"
proof (induction rs arbitrary: prev found)
  case Nil
  then show ?case by simp
next
  case (Cons h rest)
  define h' where "h' = hd (changeLineLength_loop lines w c prev found (h # rest))"
  define found' where "found' = found_after lines found h"
  have e: "changeLineLength_loop lines w c prev found (h # rest)
          = h' # changeLineLength_loop lines w c (Some h') found' rest"
    unfolding h'_def found'_def by (rule loop_unfold)
  show ?case
  proof (cases rest)
    case Nil
    with e show ?thesis by simp
  next
    case (Cons b rest')
    define x where "x = hd (changeLineLength_loop lines w c (Some h') found' (b # rest'))"
    define xs where "xs = changeLineLength_loop lines w c (Some x) (found_after lines found' b) rest'"
    have x: "changeLineLength_loop lines w c (Some h') found' (b # rest') = x # xs"
      unfolding x_def xs_def by (rule loop_unfold)
    have "startIndex x = endIndex h' + 1"
      unfolding x_def by (simp only: loop_head(1) next_start_def option.case)
    moreover have "adjacent (x # xs)"
      using Cons.IH [of "Some h'" found'] x Cons by simp
    ultimately show ?thesis using e x Cons by simp
  qed
qed

lemma loop_spans:
  "\<forall>r \<in> set rs. lines (lineIndex r) = None \<longrightarrow> startIndex r \<le> endIndex r \<Longrightarrow>
   \<forall>r \<in> set (changeLineLength_loop lines w c prev found rs). startIndex r \<le> endIndex r"
proof (induction rs arbitrary: prev found)
  case Nil
  then show ?case by simp
next
  case (Cons h rest)
  define h' where "h' = hd (changeLineLength_loop lines w c prev found (h # rest))"
  define found' where "found' = found_after lines found h"
  have e: "changeLineLength_loop lines w c prev found (h # rest)
          = h' # changeLineLength_loop lines w c (Some h') found' rest"
    unfolding h'_def found'_def by (rule loop_unfold)
  have o: "lines (lineIndex h) = None \<Longrightarrow> rowsOf h' = rowsOf h"
    and n: "lines (lineIndex h) \<noteq> None \<Longrightarrow> 1 \<le> rowsOf h'"
    unfolding h'_def by (simp_all only: loop_head not_False_eq_True)
  from Cons.prems have "lines (lineIndex h) = None \<longrightarrow> 1 \<le> rowsOf h" by (simp add: rowsOf_def)
  with o n have "1 \<le> rowsOf h'" by (cases "lines (lineIndex h)") auto
  then have "startIndex h' \<le> endIndex h'" by (simp add: rowsOf_def)
  moreover have "\<forall>r \<in> set (changeLineLength_loop lines w c (Some h') found' rest). startIndex r \<le> endIndex r"
    using Cons.IH [of "Some h'" found'] Cons.prems by simp
  ultimately show ?case using e by simp
qed

lemma loop_first:
  "rs \<noteq> [] \<Longrightarrow> startIndex (hd (changeLineLength_loop lines w c None found rs)) = startIndex (hd rs)"
  by (cases rs) (simp_all only: loop_head(1) next_start_def option.case list.sel, simp_all)

lemma loop_idem:
  "changeLineLength_loop lines w c prev found (changeLineLength_loop lines w c prev found rs)
     = changeLineLength_loop lines w c prev found rs"
proof (induction rs arbitrary: prev found)
  case Nil
  then show ?case by simp
next
  case (Cons h rest)
  show ?case
    by (cases "lines (lineIndex h)"; cases prev) (simp_all add: Let_def Cons.IH)
qed

lemma found_after_eq: "found_after lines found h \<longleftrightarrow> found \<or> uncached_retained lines h"
  by (simp add: found_after_def uncached_retained_def split: option.splits)

lemma loop_rows:
  "i < length rs \<Longrightarrow>
   rowsOf (changeLineLength_loop lines w c prev found rs ! i) =
     (case lines (lineIndex (rs ! i)) of
        None \<Rightarrow> rowsOf (rs ! i)
      | Some line \<Rightarrow>
          newRowCountInLine
            (case lineLength (rs ! i) of
               Some samples \<Rightarrow> to_number samples
             | None \<Rightarrow> if found \<or> list_ex (uncached_retained lines) (take i rs) then Some 0 else Some c) w)"
proof (induction rs arbitrary: prev found i)
  case Nil
  then show ?case by simp
next
  case (Cons h rest)
  show ?case
  proof (cases i)
    case 0
    then show ?thesis
      by (cases "lines (lineIndex h)") (simp_all add: Let_def rowsOf_def)
  next
    case (Suc i')
    with Cons.prems have i': "i' < length rest" by simp
    define h' where "h' = hd (changeLineLength_loop lines w c prev found (h # rest))"
    have e: "changeLineLength_loop lines w c prev found (h # rest)
          = h' # changeLineLength_loop lines w c (Some h') (found_after lines found h) rest"
      unfolding h'_def by (rule loop_unfold)
    have "rowsOf (changeLineLength_loop lines w c prev found (h # rest) ! i)
        = rowsOf (changeLineLength_loop lines w c (Some h') (found_after lines found h) rest ! i')"
      by (simp only: e Suc nth_Cons_Suc)
    also note Cons.IH [OF i', of "Some h'" "found_after lines found h"]
    finally show ?thesis
      by (simp add: Suc found_after_eq cong: option.case_cong)
  qed
qed

lemma changeLineLength_length:
  "length (items (changeLineLength lines w c s)) = length (items s)"
  by (simp add: changeLineLength_def loop_length)

lemma changeLineLength_tiles:
  assumes "\<forall>r \<in> set (items s). lines (lineIndex r) = None \<longrightarrow> startIndex r \<le> endIndex r"
  shows "tiles (first_start s) (items (changeLineLength lines w c s))
           (first_start s + rowCount (changeLineLength lines w c s))"
proof (cases "items s")
  case Nil
  then show ?thesis by (simp add: changeLineLength_def first_start_def rowCount_def)
next
  case (Cons h rest)
  from Cons have n0: "items s \<noteq> []" by simp
  have ne: "changeLineLength_loop lines w c None False (items s) \<noteq> []"
    using loop_length [of lines w c None False "items s"] n0 by (metis length_0_conv)
  have "startIndex (hd (items s)) = first_start s"
    using Cons by (simp add: first_start_def)
  with loop_first [OF n0, of lines w c False]
  have "startIndex (hd (changeLineLength_loop lines w c None False (items s))) = first_start s"
    by simp
  with ne loop_adjacent [of lines w c None False "items s"] loop_spans [OF assms, of w c None False]
  show ?thesis
    by (simp add: tiles_iff rowCount_sum changeLineLength_def)
qed

lemma changeLineLength_rows:
  assumes i: "i < length (items s)" and ret: "lines (lineIndex (items s ! i)) \<noteq> None"
    and ss: "single_sample (items s ! i)"
  shows "rowsOf (items (changeLineLength lines w c s) ! i)
           = max 1 (Math_ceil_div (significantLength lines c (items s) i) w)"
proof -
  from ret obtain line where l: "lines (lineIndex (items s ! i)) = Some line" by auto
  show ?thesis
  proof (cases "lineLength (items s ! i)")
    case None
    with l loop_rows [OF i, of lines w c None False] show ?thesis
      by (simp add: changeLineLength_def significantLength_def newRowCountInLine_max)
  next
    case (Some samples)
    with ss have "length samples = 1" by (simp add: single_sample_def)
    from to_number_single [OF this] Some l loop_rows [OF i, of lines w c None False] show ?thesis
      by (simp add: changeLineLength_def significantLength_def newRowCountInLine_max)
  qed
qed

lemma changeLineLength_rows_orphan:
  assumes i: "i < length (items s)" and ret: "lines (lineIndex (items s ! i)) = None"
  shows "rowsOf (items (changeLineLength lines w c s) ! i) = rowsOf (items s ! i)"
  using loop_rows [OF i, of lines w c None False] ret by (simp add: changeLineLength_def)

subsection \<open>The local adjustment\<close>

lemma first_index_aligned:
  assumes "aligned rs" "0 \<le> i" "nat i < length rs"
  shows "first_index (\<lambda>r. lineIndex r = i) rs = Some (nat i)"
proof -
  from assms have "lineIndex (rs ! nat i) = i" by (simp add: aligned_nth)
  with assms(3) have "\<exists>x \<in> set rs. lineIndex x = i" by (metis nth_mem)
  then have "first_index (\<lambda>r. lineIndex r = i) rs \<noteq> None" by (simp add: first_index_None)
  then obtain k where k: "first_index (\<lambda>r. lineIndex r = i) rs = Some k" by auto
  from first_index_Some [OF k] assms(1) have "int k = i" by (auto simp: aligned_nth)
  with k show ?thesis by auto
qed

lemma shift_line_aligned:
  assumes "aligned rs" "0 \<le> i" "nat i < length rs"
  shows "shift_line rs i = rs[nat i := shift1 (rs ! nat i)]"
  by (simp add: shift_line_def first_index_aligned [OF assms] shift1_def)

lemma aligned_update:
  "aligned rs \<Longrightarrow> k < length rs \<Longrightarrow> lineIndex r' = lineIndex (rs ! k) \<Longrightarrow> aligned (rs[k := r'])"
  by (auto simp: aligned_nth nth_list_update)

lemma foldl_shift_line:
  "aligned rs \<Longrightarrow> 0 \<le> a \<Longrightarrow> b < int (length rs) \<Longrightarrow>
   length (foldl shift_line rs [a..b]) = length rs \<and>
   (\<forall>k < length rs. foldl shift_line rs [a..b] ! k
        = (if a \<le> int k \<and> int k \<le> b then shift1 (rs ! k) else rs ! k))"
proof (induction a b arbitrary: rs rule: upto.induct)
  case (1 a b)
  show ?case
  proof (cases "a \<le> b")
    case False
    then show ?thesis by auto
  next
    case True
    define rs1 where "rs1 = rs[nat a := shift1 (rs ! nat a)]"
    from True "1.prems" have na: "nat a < length rs" by simp
    have s: "shift_line rs a = rs1"
      unfolding rs1_def using "1.prems" na by (simp add: shift_line_aligned)
    have al: "aligned rs1"
      unfolding rs1_def using "1.prems"(1) na by (rule aligned_update) (simp add: shift1_def)
    have len: "length rs1 = length rs" by (simp add: rs1_def)
    have u: "[a..b] = a # [a + 1..b]" using True by (simp add: upto_rec1)
    from "1.IH" [OF True al] "1.prems" len
    have ih: "length (foldl shift_line rs1 [a + 1..b]) = length rs"
      "\<forall>k < length rs. foldl shift_line rs1 [a + 1..b] ! k
          = (if a + 1 \<le> int k \<and> int k \<le> b then shift1 (rs1 ! k) else rs1 ! k)"
      by simp_all
    have f: "foldl shift_line rs [a..b] = foldl shift_line rs1 [a + 1..b]"
      by (simp add: u s)
    show ?thesis
    proof (intro conjI allI impI)
      show "length (foldl shift_line rs [a..b]) = length rs" using f ih(1) by simp
    next
      fix k assume k: "k < length rs"
      show "foldl shift_line rs [a..b] ! k
              = (if a \<le> int k \<and> int k \<le> b then shift1 (rs ! k) else rs ! k)"
      proof (cases "k = nat a")
        case True
        with ih(2) k f "1.prems"(2) \<open>a \<le> b\<close> show ?thesis by (simp add: rs1_def)
      next
        case False
        with ih(2) k f "1.prems"(2) show ?thesis by (auto simp: rs1_def)
      qed
    qed
  qed
qed

lemma addRowToLine_result:
  assumes al: "aligned (items s)" and r: "addRowToLine x s = Inr s'"
  shows "\<exists>p < length (items s). covers x (items s ! p) \<and> length (items s') = length (items s) \<and>
     (\<forall>k < length (items s). items s' ! k =
        (if k < p then items s ! k
         else if k = p then (items s ! p)\<lparr>endIndex := endIndex (items s ! p) + 1\<rparr>
         else shift1 (items s ! k)))"
proof -
  from r obtain p where p: "first_index (covers x) (items s) = Some p"
    by (auto simp: addRowToLine_def split: option.splits)
  from first_index_Some [OF p] have pl: "p < length (items s)" and c: "covers x (items s ! p)" by simp_all
  define b where "b = (items s ! p)\<lparr>endIndex := endIndex (items s ! p) + 1\<rparr>"
  define rs1 where "rs1 = (items s)[p := b]"
  have lb: "lineIndex b = int p" using al pl by (simp add: b_def aligned_nth)
  have al1: "aligned rs1" unfolding rs1_def using al pl by (rule aligned_update) (simp add: b_def)
  have len1: "length rs1 = length (items s)" by (simp add: rs1_def)
  from r p have s': "items s' = foldl shift_line rs1 [int p + 1 .. int (length (items s)) - 1]"
    by (auto simp: addRowToLine_def Let_def rs1_def b_def [symmetric] lb cl_length_def)
  from foldl_shift_line [OF al1, of "int p + 1" "int (length (items s)) - 1"] len1
  have fl: "length (foldl shift_line rs1 [int p + 1 .. int (length (items s)) - 1]) = length (items s)"
    "\<forall>k < length (items s). foldl shift_line rs1 [int p + 1 .. int (length (items s)) - 1] ! k
        = (if int p + 1 \<le> int k \<and> int k \<le> int (length (items s)) - 1 then shift1 (rs1 ! k) else rs1 ! k)"
    by simp_all
  have "\<forall>k < length (items s). items s' ! k =
        (if k < p then items s ! k else if k = p then b else shift1 (items s ! k))"
  proof (intro allI impI)
    fix k assume k: "k < length (items s)"
    with fl(2) s' show "items s' ! k = (if k < p then items s ! k else if k = p then b else shift1 (items s ! k))"
      by (auto simp: rs1_def)
  qed
  with pl c fl(1) s' show ?thesis unfolding b_def by auto
qed

lemma addRowToLine_adjacent:
  assumes adj: "adjacent (items s)" and al: "aligned (items s)" and r: "addRowToLine x s = Inr s'"
  shows "adjacent (items s')"
proof -
  from addRowToLine_result [OF al r] obtain p where
    p: "p < length (items s)" and len: "length (items s') = length (items s)"
    and nth: "\<And>k. k < length (items s) \<Longrightarrow> items s' ! k =
        (if k < p then items s ! k
         else if k = p then (items s ! p)\<lparr>endIndex := endIndex (items s ! p) + 1\<rparr>
         else shift1 (items s ! k))"
    by blast
  show ?thesis
    unfolding adjacent_nth
  proof (intro allI impI)
    fix k assume k: "Suc k < length (items s')"
    with len have k1: "Suc k < length (items s)" and k0: "k < length (items s)" by simp_all
    from adj k1 have a: "startIndex (items s ! Suc k) = endIndex (items s ! k) + 1"
      by (simp add: adjacent_nth)
    show "startIndex (items s' ! Suc k) = endIndex (items s' ! k) + 1"
      using a by (auto simp: nth [OF k1] nth [OF k0] shift1_def)
  qed
qed

lemma addRowToLine_tiles:
  assumes adj: "adjacent (items s)" and al: "aligned (items s)" and r: "addRowToLine x s = Inr s'"
    and sp: "\<forall>r \<in> set (items s). startIndex r \<le> endIndex r"
  shows "tiles (first_start s) (items s') (first_start s + rowCount s')"
proof -
  from addRowToLine_result [OF al r] obtain p where
    p: "p < length (items s)" and len: "length (items s') = length (items s)"
    and nth: "\<And>k. k < length (items s) \<Longrightarrow> items s' ! k =
        (if k < p then items s ! k
         else if k = p then (items s ! p)\<lparr>endIndex := endIndex (items s ! p) + 1\<rparr>
         else shift1 (items s ! k))"
    by blast
  from p len have ne: "items s' \<noteq> []" "items s \<noteq> []" by auto
  from p have p0: "0 < length (items s)" by (cases "items s") simp_all
  have "startIndex (items s' ! 0) = startIndex (items s ! 0)"
    using nth [OF p0] by (cases p) (simp_all add: shift1_def)
  with ne have h: "startIndex (hd (items s')) = first_start s"
    by (cases "items s"; cases "items s'") (simp_all add: first_start_def)
  have sp': "\<forall>r \<in> set (items s'). startIndex r \<le> endIndex r"
  proof
    fix e assume "e \<in> set (items s')"
    then obtain k where k: "k < length (items s')" "e = items s' ! k" by (auto simp: in_set_conv_nth)
    with len have k0: "k < length (items s)" by simp
    with sp have "startIndex (items s ! k) \<le> endIndex (items s ! k)" by simp
    with k nth [OF k0] sp p show "startIndex e \<le> endIndex e" by (auto simp: shift1_def)
  qed
  from addRowToLine_adjacent [OF adj al r] h sp' ne show ?thesis
    by (simp add: tiles_iff rowCount_sum)
qed

subsection \<open>Spans are never empty\<close>

text \<open>
  A new index has no entry, and \<open>push\<close> adds an entry of one row: with the recompute and
  the local adjustment above, every entry that these operations build has a span that is
  not empty.
\<close>

lemma LineWrap_new_spans: "\<forall>r \<in> set (items (LineWrap_new n)). startIndex r \<le> endIndex r"
  by (simp add: LineWrap_new_def CircularList_new_def)

lemma push_spans:
  assumes "\<forall>r \<in> set (items s). startIndex r \<le> endIndex r"
  shows "\<forall>r \<in> set (items (push v s)). startIndex r \<le> endIndex r"
proof
  fix r assume a: "r \<in> set (items (push v s))"
  define e where "e = \<lparr>lineIndex = (if cl_length s \<noteq> 0 then lineIndex (items s ! (cl_length s - 1)) + 1 else 0),
      startIndex = (if cl_length s \<noteq> 0 then endIndex (items s ! (cl_length s - 1)) + 1 else 0),
      endIndex = (if cl_length s \<noteq> 0 then endIndex (items s ! (cl_length s - 1)) + 1 else 0),
      lineLength = None\<rparr>"
  have e: "startIndex e = endIndex e" by (simp add: e_def)
  have "items (push v s) = drop (length (items s @ [e]) - maxLength s) (items s @ [e])"
    by (simp add: push_def cl_push_def Let_def e_def)
  with a have "r \<in> set (drop (length (items s @ [e]) - maxLength s) (items s @ [e]))" by simp
  then have "r \<in> set (items s @ [e])" by (rule in_set_dropD)
  with assms e show "startIndex r \<le> endIndex r" by auto
qed

subsection \<open>The concrete states\<close>

lemmas lw_defs = push_def cl_push_def LineWrap_new_def CircularList_new_def cl_length_def Let_def

lemma state_two_eq:
  "state_two = \<lparr>maxLength = 5, items =
     [\<lparr>lineIndex = 0, startIndex = 0, endIndex = 0, lineLength = None\<rparr>,
      \<lparr>lineIndex = 1, startIndex = 1, endIndex = 1, lineLength = None\<rparr>]\<rparr>"
  by (simp add: state_two_def lw_defs)

lemma state_three_eq:
  "state_three = \<lparr>maxLength = 5, items =
     [\<lparr>lineIndex = 0, startIndex = 0, endIndex = 0, lineLength = None\<rparr>,
      \<lparr>lineIndex = 1, startIndex = 1, endIndex = 1, lineLength = None\<rparr>,
      \<lparr>lineIndex = 2, startIndex = 2, endIndex = 2, lineLength = None\<rparr>]\<rparr>"
  by (simp add: state_three_def lw_defs)

lemma state_evicted_one_eq:
  "state_evicted_one = \<lparr>maxLength = 1, items =
     [\<lparr>lineIndex = 1, startIndex = 1, endIndex = 1, lineLength = None\<rparr>]\<rparr>"
  by (simp add: state_evicted_one_def lw_defs)

lemma state_evicted_two_eq:
  "state_evicted_two = \<lparr>maxLength = 2, items =
     [\<lparr>lineIndex = 1, startIndex = 1, endIndex = 1, lineLength = None\<rparr>,
      \<lparr>lineIndex = 2, startIndex = 2, endIndex = 2, lineLength = None\<rparr>]\<rparr>"
  by (simp add: state_evicted_two_def lw_defs)

lemma changed_three:
  "changeLineLength lines_two_long 10 25 state_three = \<lparr>maxLength = 5, items =
     [\<lparr>lineIndex = 0, startIndex = 0, endIndex = 2, lineLength = None\<rparr>,
      \<lparr>lineIndex = 1, startIndex = 3, endIndex = 3, lineLength = None\<rparr>,
      \<lparr>lineIndex = 2, startIndex = 4, endIndex = 4, lineLength = None\<rparr>]\<rparr>"
  by (simp add: state_three_eq changeLineLength_def lines_two_long_def newRowCountInLine_def
      Math_ceil_div_25_10)

lemma state_cached_eq:
  "state_cached = \<lparr>maxLength = 5, items =
     [\<lparr>lineIndex = 0, startIndex = 0, endIndex = 0, lineLength = None\<rparr>,
      \<lparr>lineIndex = 1, startIndex = 1, endIndex = 1, lineLength = Some [25]\<rparr>,
      \<lparr>lineIndex = 2, startIndex = 2, endIndex = 2, lineLength = None\<rparr>]\<rparr>"
  by (simp add: state_cached_def state_three_eq setLineLength_def)

lemma changed_cached:
  "changeLineLength lines_two_long 10 0 state_cached = \<lparr>maxLength = 5, items =
     [\<lparr>lineIndex = 0, startIndex = 0, endIndex = 0, lineLength = None\<rparr>,
      \<lparr>lineIndex = 1, startIndex = 1, endIndex = 3, lineLength = Some [25]\<rparr>,
      \<lparr>lineIndex = 2, startIndex = 4, endIndex = 4, lineLength = None\<rparr>]\<rparr>"
  by (simp add: state_cached_eq changeLineLength_def lines_two_long_def newRowCountInLine_def
      Math_ceil_div_25_10)

lemma state_full_eq:
  "state_full = \<lparr>maxLength = 2, items =
     [\<lparr>lineIndex = 0, startIndex = 0, endIndex = 0, lineLength = None\<rparr>,
      \<lparr>lineIndex = 1, startIndex = 1, endIndex = 1, lineLength = None\<rparr>]\<rparr>"
  by (simp add: state_full_def lw_defs)

lemma grown_three:
  "addRowToLine 1 state_three = Inr \<lparr>maxLength = 5, items =
     [\<lparr>lineIndex = 0, startIndex = 0, endIndex = 0, lineLength = None\<rparr>,
      \<lparr>lineIndex = 1, startIndex = 1, endIndex = 2, lineLength = None\<rparr>,
      \<lparr>lineIndex = 2, startIndex = 3, endIndex = 3, lineLength = None\<rparr>]\<rparr>"
  by (simp add: state_three_eq addRowToLine_def covers_def cl_length_def shift_line_def upto_rec1)

subsection \<open>Claims\<close>

text \<open>
  C1 (corrected). As stated the claim fails: \<open>changeLineLength\<close> keeps the start of the
  first entry, which is not row 0 once a push has evicted the oldest entry, and
  \<open>addRowToLine\<close> finds the later entries by their \<open>lineIndex\<close> below the current length.
  What holds: after \<open>changeLineLength\<close> with a length other than 0, from any state, each
  entry starts on the row after the end of the entry before it; when the entries whose line
  is gone from the buffer have spans that are not empty, the spans partition the rows from
  the start of the first entry, \<open>rowCount\<close> rows in all. After \<open>addRowToLine\<close> on a state
  whose entries are adjacent and sit at the position of their \<open>lineIndex\<close>, the entries are
  adjacent again and, when no span was empty, partition the rows from the start of the first
  entry; the call succeeds on every row of a tiled state. The range is that of the rows from
  0 when the first entry starts on row 0.
\<close>

theorem reflow_spans_contiguous:
  "(length' \<noteq> 0 \<longrightarrow> adjacent (items (changeLineLength lines length' cursorPos s)))
   \<and> (length' \<noteq> 0
        \<and> (\<forall>r \<in> set (items s). lines (lineIndex r) = None \<longrightarrow> startIndex r \<le> endIndex r) \<longrightarrow>
        tiles (first_start s) (items (changeLineLength lines length' cursorPos s))
          (first_start s + rowCount (changeLineLength lines length' cursorPos s)))
   \<and> (adjacent (items s) \<and> aligned (items s) \<and> addRowToLine index s = Inr s' \<longrightarrow>
        adjacent (items s'))
   \<and> (adjacent (items s) \<and> aligned (items s) \<and> addRowToLine index s = Inr s'
        \<and> (\<forall>r \<in> set (items s). startIndex r \<le> endIndex r) \<longrightarrow>
        tiles (first_start s) (items s') (first_start s + rowCount s'))
   \<and> (tiles (first_start s) (items s) hi \<and> first_start s \<le> index \<and> index < hi \<longrightarrow>
        (\<exists>s''. addRowToLine index s = Inr s''))"
proof -
  have c1: "adjacent (items (changeLineLength lines length' cursorPos s))"
    by (simp add: changeLineLength_def loop_adjacent)
  have c2: "(\<forall>r \<in> set (items s). lines (lineIndex r) = None \<longrightarrow> startIndex r \<le> endIndex r) \<longrightarrow>
        tiles (first_start s) (items (changeLineLength lines length' cursorPos s))
          (first_start s + rowCount (changeLineLength lines length' cursorPos s))"
    using changeLineLength_tiles [of s lines length' cursorPos] by blast
  have c3: "adjacent (items s) \<and> aligned (items s) \<and> addRowToLine index s = Inr s' \<longrightarrow>
        adjacent (items s')"
    using addRowToLine_adjacent [of s index s'] by blast
  have c4: "adjacent (items s) \<and> aligned (items s) \<and> addRowToLine index s = Inr s'
        \<and> (\<forall>r \<in> set (items s). startIndex r \<le> endIndex r) \<longrightarrow>
        tiles (first_start s) (items s') (first_start s + rowCount s')"
    using addRowToLine_tiles [of s index s'] by blast
  have c5: "tiles (first_start s) (items s) hi \<and> first_start s \<le> index \<and> index < hi \<longrightarrow>
        (\<exists>s''. addRowToLine index s = Inr s'')"
  proof
    assume a: "tiles (first_start s) (items s) hi \<and> first_start s \<le> index \<and> index < hi"
    then have "\<exists>r \<in> set (items s). covers index r" using tiles_covered by blast
    then have "first_index (covers index) (items s) \<noteq> None" by (simp add: first_index_None)
    then show "\<exists>s''. addRowToLine index s = Inr s''"
      by (auto simp: addRowToLine_def Let_def)
  qed
  from c1 c2 c3 c4 c5 show ?thesis by blast
qed

theorem reflow_spans_contiguous_witness:
  "adjacent (items (changeLineLength lines_two_long 10 25 state_three))
   \<and> tiles (first_start state_three) (items (changeLineLength lines_two_long 10 25 state_three))
       (first_start state_three + rowCount (changeLineLength lines_two_long 10 25 state_three))
   \<and> adjacent
       [\<lparr>lineIndex = 0, startIndex = 0, endIndex = 0, lineLength = None\<rparr>,
        \<lparr>lineIndex = 1, startIndex = 1, endIndex = 2, lineLength = None\<rparr>,
        \<lparr>lineIndex = 2, startIndex = 3, endIndex = 3, lineLength = None\<rparr>]
   \<and> first_start state_three = 0"
proof -
  define grown where "grown = \<lparr>maxLength = 5, items =
     [\<lparr>lineIndex = 0, startIndex = 0, endIndex = 0, lineLength = None\<rparr>,
      \<lparr>lineIndex = 1, startIndex = 1, endIndex = 2, lineLength = None\<rparr>,
      \<lparr>lineIndex = 2, startIndex = 3, endIndex = 3, lineLength = None\<rparr>]\<rparr>"
  have h1: "(10::int) \<noteq> 0" by simp
  have h2: "\<forall>r \<in> set (items state_three). lines_two_long (lineIndex r) = None \<longrightarrow> startIndex r \<le> endIndex r"
    by (simp add: state_three_eq)
  have h3: "adjacent (items state_three)" by (simp add: state_three_eq)
  have h4: "aligned (items state_three)" by (simp add: state_three_eq aligned_def upt_rec)
  have h5: "addRowToLine 1 state_three = Inr grown" by (simp add: grown_three grown_def)
  have h6: "first_start state_three = 0" by (simp add: state_three_eq first_start_def)
  have g: "items grown =
       [\<lparr>lineIndex = 0, startIndex = 0, endIndex = 0, lineLength = None\<rparr>,
        \<lparr>lineIndex = 1, startIndex = 1, endIndex = 2, lineLength = None\<rparr>,
        \<lparr>lineIndex = 2, startIndex = 3, endIndex = 3, lineLength = None\<rparr>]"
    by (simp add: grown_def)
  from reflow_spans_contiguous [where length' = 10 and lines = lines_two_long and cursorPos = 25
      and s = state_three and index = 1 and s' = grown] h1 h2 h3 h4 h5
  have "adjacent (items (changeLineLength lines_two_long 10 25 state_three))"
    and "tiles (first_start state_three) (items (changeLineLength lines_two_long 10 25 state_three))
       (first_start state_three + rowCount (changeLineLength lines_two_long 10 25 state_three))"
    and "adjacent (items grown)"
    by blast+
  with h6 g show ?thesis by (simp only: simp_thms)
qed

theorem partition_from_zero_counterexample:
  "state_evicted_one = \<lparr>maxLength = 1, items =
       [\<lparr>lineIndex = 1, startIndex = 1, endIndex = 1, lineLength = None\<rparr>]\<rparr>
   \<and> changeLineLength lines_all_empty 10 0 state_evicted_one = state_evicted_one
   \<and> rowCount state_evicted_one = 1
   \<and> \<not> tiles 0 (items (changeLineLength lines_all_empty 10 0 state_evicted_one))
        (rowCount (changeLineLength lines_all_empty 10 0 state_evicted_one))
   \<and> state_evicted_two = \<lparr>maxLength = 2, items =
       [\<lparr>lineIndex = 1, startIndex = 1, endIndex = 1, lineLength = None\<rparr>,
        \<lparr>lineIndex = 2, startIndex = 2, endIndex = 2, lineLength = None\<rparr>]\<rparr>
   \<and> adjacent (items state_evicted_two)
   \<and> addRowToLine 1 state_evicted_two = Inr \<lparr>maxLength = 2, items =
       [\<lparr>lineIndex = 1, startIndex = 1, endIndex = 2, lineLength = None\<rparr>,
        \<lparr>lineIndex = 2, startIndex = 2, endIndex = 2, lineLength = None\<rparr>]\<rparr>
   \<and> \<not> adjacent
       [\<lparr>lineIndex = 1, startIndex = 1, endIndex = 2, lineLength = None\<rparr>,
        \<lparr>lineIndex = 2, startIndex = 2, endIndex = 2, lineLength = None\<rparr>]"
  by (simp add: state_evicted_one_eq state_evicted_two_eq changeLineLength_def lines_all_empty_def
      newRowCountInLine_def Math_ceil_div_25_10 rowCount_def addRowToLine_def covers_def cl_length_def)

text \<open>
  C2 (corrected). The code never reads the content of a line: a retained line without a
  cached length takes the cursor position when it is the first such line and 0 otherwise.
  What holds for every width of at least 1: a retained entry whose cache is absent or holds
  one sample gets \<open>max(1, ceil(significantLength / width))\<close> rows, where the significant
  length is the cached sample, else the cursor position for the first retained entry without
  a cache, else 0; when every cache is absent or holds one sample, \<open>rowCount\<close> afterwards is
  the sum of \<open>ceil(max(significantLength, 1) / width)\<close> over the retained entries plus the
  unchanged row counts of the entries whose line is gone from the buffer.
\<close>

theorem changeLineLength_row_counts:
  "(1 \<le> width \<and> i < length (items s) \<and> lines (lineIndex (items s ! i)) \<noteq> None
      \<and> single_sample (items s ! i) \<longrightarrow>
      rowsOf (items (changeLineLength lines width cursorPos s) ! i)
        = max 1 (Math_ceil_div (significantLength lines cursorPos (items s) i) width))
   \<and> (1 \<le> width \<and> (\<forall>r \<in> set (items s). single_sample r) \<longrightarrow>
      rowCount (changeLineLength lines width cursorPos s)
        = (\<Sum>k = 0 ..< length (items s).
             if lines (lineIndex (items s ! k)) \<noteq> None
             then Math_ceil_div (max (significantLength lines cursorPos (items s) k) 1) width
             else rowsOf (items s ! k)))"
proof -
  have a: "1 \<le> width \<and> i < length (items s) \<and> lines (lineIndex (items s ! i)) \<noteq> None
      \<and> single_sample (items s ! i) \<longrightarrow>
      rowsOf (items (changeLineLength lines width cursorPos s) ! i)
        = max 1 (Math_ceil_div (significantLength lines cursorPos (items s) i) width)"
    by (simp add: changeLineLength_rows)
  have b: "1 \<le> width \<and> (\<forall>r \<in> set (items s). single_sample r) \<longrightarrow>
      rowCount (changeLineLength lines width cursorPos s)
        = (\<Sum>k = 0 ..< length (items s).
             if lines (lineIndex (items s ! k)) \<noteq> None
             then Math_ceil_div (max (significantLength lines cursorPos (items s) k) 1) width
             else rowsOf (items s ! k))"
  proof
    assume h: "1 \<le> width \<and> (\<forall>r \<in> set (items s). single_sample r)"
    have "rowCount (changeLineLength lines width cursorPos s)
        = (\<Sum>k = 0 ..< length (items s). rowsOf (items (changeLineLength lines width cursorPos s) ! k))"
      by (simp add: rowCount_nth changeLineLength_length)
    also have "\<dots> = (\<Sum>k = 0 ..< length (items s).
             if lines (lineIndex (items s ! k)) \<noteq> None
             then Math_ceil_div (max (significantLength lines cursorPos (items s) k) 1) width
             else rowsOf (items s ! k))"
    proof (rule sum.cong)
      fix k assume "k \<in> {0 ..< length (items s)}"
      then have k: "k < length (items s)" by simp
      with h have ss: "single_sample (items s ! k)" by simp
      show "rowsOf (items (changeLineLength lines width cursorPos s) ! k)
          = (if lines (lineIndex (items s ! k)) \<noteq> None
             then Math_ceil_div (max (significantLength lines cursorPos (items s) k) 1) width
             else rowsOf (items s ! k))"
      proof (cases "lines (lineIndex (items s ! k))")
        case None
        with changeLineLength_rows_orphan [of k s lines width cursorPos] k show ?thesis by simp
      next
        case (Some line)
        then have "lines (lineIndex (items s ! k)) \<noteq> None" by simp
        from changeLineLength_rows [of k s lines width cursorPos] k this ss h Some show ?thesis
          by (simp add: Math_ceil_div_max)
      qed
    qed simp
    finally show "rowCount (changeLineLength lines width cursorPos s)
        = (\<Sum>k = 0 ..< length (items s).
             if lines (lineIndex (items s ! k)) \<noteq> None
             then Math_ceil_div (max (significantLength lines cursorPos (items s) k) 1) width
             else rowsOf (items s ! k))" .
  qed
  from a b show ?thesis by blast
qed

theorem changeLineLength_row_counts_witness:
  "rowsOf (items (changeLineLength lines_two_long 10 25 state_three) ! 0)
     = max 1 (Math_ceil_div (significantLength lines_two_long 25 (items state_three) 0) 10)
   \<and> rowsOf (items (changeLineLength lines_two_long 10 0 state_cached) ! 1)
     = max 1 (Math_ceil_div (significantLength lines_two_long 0 (items state_cached) 1) 10)
   \<and> significantLength lines_two_long 0 (items state_cached) 1 = 25
   \<and> rowCount (changeLineLength lines_two_long 10 25 state_three)
     = (\<Sum>k = 0 ..< length (items state_three).
          if lines_two_long (lineIndex (items state_three ! k)) \<noteq> None
          then Math_ceil_div (max (significantLength lines_two_long 25 (items state_three) k) 1) 10
          else rowsOf (items state_three ! k))"
proof -
  have h1: "(1::int) \<le> 10" by simp
  have h2: "0 < length (items state_three)" by (simp add: state_three_eq)
  have h3: "lines_two_long (lineIndex (items state_three ! 0)) \<noteq> None"
    by (simp add: state_three_eq lines_two_long_def)
  have h4: "single_sample (items state_three ! 0)"
    by (simp add: state_three_eq single_sample_def)
  have h5: "\<forall>r \<in> set (items state_three). single_sample r"
    by (simp add: state_three_eq single_sample_def)
  have k2: "1 < length (items state_cached)" by (simp add: state_cached_eq)
  have k3: "lines_two_long (lineIndex (items state_cached ! 1)) \<noteq> None"
    by (simp add: state_cached_eq lines_two_long_def)
  have k4: "single_sample (items state_cached ! 1)"
    by (simp add: state_cached_eq single_sample_def)
  have k5: "significantLength lines_two_long 0 (items state_cached) 1 = 25"
    by (simp add: state_cached_eq significantLength_def)
  from changeLineLength_row_counts [where width = 10 and lines = lines_two_long and cursorPos = 25
      and s = state_three and i = 0] h1 h2 h3 h4 h5
  have a: "rowsOf (items (changeLineLength lines_two_long 10 25 state_three) ! 0)
     = max 1 (Math_ceil_div (significantLength lines_two_long 25 (items state_three) 0) 10)"
    and c: "rowCount (changeLineLength lines_two_long 10 25 state_three)
     = (\<Sum>k = 0 ..< length (items state_three).
          if lines_two_long (lineIndex (items state_three ! k)) \<noteq> None
          then Math_ceil_div (max (significantLength lines_two_long 25 (items state_three) k) 1) 10
          else rowsOf (items state_three ! k))"
    by blast+
  from changeLineLength_row_counts [where width = 10 and lines = lines_two_long and cursorPos = 0
      and s = state_cached and i = 1] h1 k2 k3 k4
  have b: "rowsOf (items (changeLineLength lines_two_long 10 0 state_cached) ! 1)
     = max 1 (Math_ceil_div (significantLength lines_two_long 0 (items state_cached) 1) 10)"
    by blast
  from a b c k5 show ?thesis by blast
qed

theorem live_length_row_count_counterexample:
  "rowsOf (items (changeLineLength lines_two_long 10 25 state_two) ! 1) = 1
   \<and> claimed_rowCountInLine (items state_two ! 1) (replicate 25 cell_x) 10 = 3
   \<and> rowCount (changeLineLength lines_two_long 10 25 state_two) = 4
   \<and> claimed_rowCountInLine (items state_two ! 0) (replicate 25 cell_x) 10
     + claimed_rowCountInLine (items state_two ! 1) (replicate 25 cell_x) 10 = 6"
  by (simp add: state_two_eq changeLineLength_def lines_two_long_def newRowCountInLine_def
      Math_ceil_div_25_10 rowCount_def rowsOf_def claimed_rowCountInLine_def
      claimed_significantLength_def live_length_def cell_x_def)

text \<open>
  C3. \<open>changeLineLength\<close> is idempotent: a second call with the same buffer, the same length
  (other than 0) and the same cursor position leaves the state as the first call left it.
\<close>

theorem changeLineLength_idempotent:
  "length' \<noteq> 0 \<Longrightarrow>
   changeLineLength lines length' cursorPos (changeLineLength lines length' cursorPos s)
     = changeLineLength lines length' cursorPos s"
  by (simp add: changeLineLength_def loop_idem)

theorem changeLineLength_idempotent_witness:
  "changeLineLength lines_two_long 10 25 (changeLineLength lines_two_long 10 25 state_three)
     = changeLineLength lines_two_long 10 25 state_three"
proof -
  have h: "(10::int) \<noteq> 0" by simp
  show ?thesis by (rule changeLineLength_idempotent [OF h])
qed

text \<open>
  C9. \<open>getRowIndex(r)\<close> returns an entry of the index whose span contains \<open>r\<close>; on a state
  whose entries partition the rows from 0 to \<open>rowCount\<close> it returns such an entry for every
  row of that range and none for a row outside it; when no span contains \<open>r\<close> it returns no
  entry.
\<close>

theorem getRowIndex_covering:
  "(getRowIndex x s = Some r \<longrightarrow> r \<in> set (items s) \<and> startIndex r \<le> x \<and> x \<le> endIndex r)
   \<and> (tiles 0 (items s) (rowCount s) \<and> 0 \<le> x \<and> x < rowCount s \<longrightarrow>
        (\<exists>e. getRowIndex x s = Some e \<and> startIndex e \<le> x \<and> x \<le> endIndex e))
   \<and> ((\<forall>e \<in> set (items s). \<not> (startIndex e \<le> x \<and> x \<le> endIndex e)) \<longrightarrow> getRowIndex x s = None)
   \<and> (tiles 0 (items s) (rowCount s) \<and> (x < 0 \<or> rowCount s \<le> x) \<longrightarrow> getRowIndex x s = None)"
proof -
  have c1: "getRowIndex x s = Some r \<longrightarrow> r \<in> set (items s) \<and> startIndex r \<le> x \<and> x \<le> endIndex r"
    using getRowIndex_Some [of x s r] by (simp add: covers_def)
  have c2: "tiles 0 (items s) (rowCount s) \<and> 0 \<le> x \<and> x < rowCount s \<longrightarrow>
        (\<exists>e. getRowIndex x s = Some e \<and> startIndex e \<le> x \<and> x \<le> endIndex e)"
  proof
    assume a: "tiles 0 (items s) (rowCount s) \<and> 0 \<le> x \<and> x < rowCount s"
    then obtain r where "r \<in> set (items s)" "covers x r"
      using tiles_covered by blast
    then have "getRowIndex x s \<noteq> None" by (auto simp: getRowIndex_None)
    then obtain e where e: "getRowIndex x s = Some e" by auto
    from getRowIndex_Some [OF this] e
    show "\<exists>e. getRowIndex x s = Some e \<and> startIndex e \<le> x \<and> x \<le> endIndex e"
      by (simp add: covers_def)
  qed
  have c3: "(\<forall>e \<in> set (items s). \<not> (startIndex e \<le> x \<and> x \<le> endIndex e)) \<longrightarrow> getRowIndex x s = None"
    by (simp add: getRowIndex_None covers_def)
  have c4: "tiles 0 (items s) (rowCount s) \<and> (x < 0 \<or> rowCount s \<le> x) \<longrightarrow> getRowIndex x s = None"
  proof
    assume a: "tiles 0 (items s) (rowCount s) \<and> (x < 0 \<or> rowCount s \<le> x)"
    show "getRowIndex x s = None"
      unfolding getRowIndex_None
    proof
      fix r assume "r \<in> set (items s)"
      with a tiles_outside [of 0 "items s" "rowCount s" r x] show "\<not> covers x r" by auto
    qed
  qed
  from c1 c2 c3 c4 show ?thesis by blast
qed

theorem getRowIndex_covering_witness:
  "getRowIndex 1 state_three = Some \<lparr>lineIndex = 1, startIndex = 1, endIndex = 1, lineLength = None\<rparr>
   \<and> \<lparr>lineIndex = 1, startIndex = 1, endIndex = 1, lineLength = None\<rparr> \<in> set (items state_three)
   \<and> (\<exists>e. getRowIndex 1 state_three = Some e \<and> startIndex e \<le> 1 \<and> 1 \<le> endIndex e)
   \<and> getRowIndex 7 state_three = None"
proof -
  define e1 where "e1 = \<lparr>lineIndex = 1, startIndex = 1, endIndex = 1, lineLength = None\<rparr>"
  have h1: "getRowIndex 1 state_three = Some e1"
    by (simp add: state_three_eq getRowIndex_def cl_filter_def covers_def e1_def)
  have h2: "tiles 0 (items state_three) (rowCount state_three)"
    by (simp add: state_three_eq rowCount_def)
  have h3: "(0::int) \<le> 1 \<and> 1 < rowCount state_three"
    by (simp add: state_three_eq rowCount_def)
  have h4: "\<forall>e \<in> set (items state_three). \<not> (startIndex e \<le> 7 \<and> 7 \<le> endIndex e)"
    by (simp add: state_three_eq)
  have h5: "(7::int) < 0 \<or> rowCount state_three \<le> 7"
    by (simp add: state_three_eq rowCount_def)
  from getRowIndex_covering [of 1 state_three e1] h1
  have m: "e1 \<in> set (items state_three)"
    by blast
  from getRowIndex_covering [of 1 state_three e1] h2 h3
  have a: "\<exists>e. getRowIndex 1 state_three = Some e \<and> startIndex e \<le> 1 \<and> 1 \<le> endIndex e"
    by blast
  from getRowIndex_covering [of 7 state_three e1] h4
  have b: "getRowIndex 7 state_three = None"
    by blast
  from getRowIndex_covering [of 7 state_three e1] h2 h5
  have b': "getRowIndex 7 state_three = None"
    by blast
  from h1 m a b show ?thesis unfolding e1_def by blast
qed

subsection \<open>Trimming from the oldest end\<close>

lemma trimStart_step_raised: "foldl (trimStart_step count) (c, Some e) xs = (c, Some e)"
  by (induction xs) (simp_all add: trimStart_step_def)

lemma map_take_update:
  "n < length xs \<Longrightarrow>
   (map f (take n xs) @ drop n xs)[n := f ((map f (take n xs) @ drop n xs) ! n)]
     = map f (take (Suc n) xs) @ drop (Suc n) xs"
proof -
  assume n: "n < length xs"
  have l: "length (map f (take n xs)) = n" using n by simp
  have d: "drop n xs = xs ! n # drop (Suc n) xs" using n by (simp add: Cons_nth_drop_Suc)
  have "(map f (take n xs) @ drop n xs) ! n = xs ! n"
    unfolding d using nth_append_length [of "map f (take n xs)" "xs ! n" "drop (Suc n) xs"] l by simp
  moreover have "(map f (take n xs) @ xs ! n # drop (Suc n) xs)[n := f (xs ! n)]
      = map f (take n xs) @ f (xs ! n) # drop (Suc n) xs"
    using list_update_length [of "map f (take n xs)" "xs ! n" "drop (Suc n) xs" "f (xs ! n)"] l by simp
  ultimately show ?thesis
    using n by (simp add: d take_Suc_conv_app_nth)
qed

lemma trimStart_prefix:
  "n \<le> length (items c) \<Longrightarrow>
   foldl (trimStart_step count) (c, None) [0 ..< n]
     = (c\<lparr>items := map (shift_entry count) (take n (items c)) @ drop n (items c)\<rparr>, None)"
proof (induction n)
  case 0
  then show ?case by simp
next
  case (Suc n)
  then have n: "n < length (items c)" by simp
  with Suc.IH have ih: "foldl (trimStart_step count) (c, None) [0 ..< n]
     = (c\<lparr>items := map (shift_entry count) (take n (items c)) @ drop n (items c)\<rparr>, None)"
    by simp
  have "foldl (trimStart_step count) (c, None) [0 ..< Suc n]
      = trimStart_step count (foldl (trimStart_step count) (c, None) [0 ..< n]) n"
    by simp
  also have "\<dots> = trimStart_step count
      (c\<lparr>items := map (shift_entry count) (take n (items c)) @ drop n (items c)\<rparr>, None) n"
    by (simp only: ih)
  also have "\<dots> = (c\<lparr>items := map (shift_entry count) (take (Suc n) (items c)) @ drop (Suc n) (items c)\<rparr>, None)"
    using n map_take_update [OF n, of "shift_entry count"]
    by (simp add: trimStart_step_def cl_get_def cl_length_def)
  finally show ?case .
qed

lemma trimStart_short:
  assumes "length (items c) < n"
  shows "foldl (trimStart_step count) (c, None) [0 ..< n]
           = (c\<lparr>items := map (shift_entry count) (items c)\<rparr>, Some IndexOutOfRange)"
proof -
  define m where "m = length (items c)"
  have mn: "m < n" using assms by (simp add: m_def)
  have "[0 ..< n] = [0 ..< m] @ [m ..< n]"
    using upt_add_eq_append [of 0 m "n - m"] mn by simp
  moreover have "[m ..< n] = m # [Suc m ..< n]" using mn by (simp add: upt_conv_Cons)
  ultimately have u: "[0 ..< n] = [0 ..< m] @ m # [Suc m ..< n]" by simp
  have p: "foldl (trimStart_step count) (c, None) [0 ..< m]
     = (c\<lparr>items := map (shift_entry count) (items c)\<rparr>, None)"
    using trimStart_prefix [of m c count] by (simp add: m_def)
  have "trimStart_step count (c\<lparr>items := map (shift_entry count) (items c)\<rparr>, None) m
          = (c\<lparr>items := map (shift_entry count) (items c)\<rparr>, Some IndexOutOfRange)"
    by (simp add: trimStart_step_def cl_get_def cl_length_def m_def)
  then show ?thesis by (simp only: u foldl_append foldl_Cons p trimStart_step_raised)
qed

lemma trimStart_result:
  "trimStart count s =
     (s\<lparr>items := map (shift_entry (int count)) (take (maxLength s) (drop count (items s)))
                   @ drop (maxLength s) (drop count (items s))\<rparr>,
      if maxLength s \<le> length (items s) - count then None else Some IndexOutOfRange)"
proof (cases "maxLength s \<le> length (items s) - count")
  case True
  with trimStart_prefix [of "maxLength s" "cl_trimStart count s" "int count"]
  show ?thesis by (simp add: trimStart_def cl_trimStart_def)
next
  case False
  with trimStart_short [of "cl_trimStart count s" "maxLength s" "int count"]
  show ?thesis by (simp add: trimStart_def cl_trimStart_def)
qed

text \<open>
  C10. \<open>trimStart(count)\<close> drops the oldest \<open>count\<close> entries and subtracts \<open>count\<close> from
  \<open>lineIndex\<close>, \<open>startIndex\<close> and \<open>endIndex\<close> of the entries that are left, in a loop over
  all \<open>maxLength\<close> positions. On an index of at most \<open>maxLength\<close> entries the call leaves
  exactly the entries after the oldest \<open>count\<close>, each with \<open>count\<close> subtracted from the three
  fields and its cached lengths as they were, whether it returns or ends by the exception.
  It returns when at least \<open>maxLength\<close> entries are left after the drop and ends by the
  exception of an absent entry otherwise; so it ends by the exception on every state that
  holds fewer than \<open>maxLength\<close> entries, and on a state of at most \<open>maxLength\<close> entries it
  returns only when the state holds \<open>maxLength\<close> entries.
\<close>

theorem trimStart_total_iff_full:
  "items (fst (trimStart count s))
     = map (\<lambda>r. \<lparr>lineIndex = lineIndex r - int count, startIndex = startIndex r - int count,
                  endIndex = endIndex r - int count, lineLength = lineLength r\<rparr>)
         (take (maxLength s) (drop count (items s)))
       @ drop (maxLength s) (drop count (items s))
   \<and> maxLength (fst (trimStart count s)) = maxLength s
   \<and> (length (items s) \<le> maxLength s \<longrightarrow>
        items (fst (trimStart count s))
          = map (\<lambda>r. \<lparr>lineIndex = lineIndex r - int count, startIndex = startIndex r - int count,
                       endIndex = endIndex r - int count, lineLength = lineLength r\<rparr>)
              (drop count (items s)))
   \<and> (maxLength s \<le> length (items s) - count \<longrightarrow> snd (trimStart count s) = None)
   \<and> (length (items s) - count < maxLength s \<longrightarrow> snd (trimStart count s) = Some IndexOutOfRange)
   \<and> (length (items s) < maxLength s \<longrightarrow> snd (trimStart count s) = Some IndexOutOfRange)
   \<and> (length (items s) \<le> maxLength s \<and> snd (trimStart count s) = None \<longrightarrow>
        length (items s) = maxLength s)"
proof -
  have sh: "shift_entry (int count)
      = (\<lambda>r. \<lparr>lineIndex = lineIndex r - int count, startIndex = startIndex r - int count,
                endIndex = endIndex r - int count, lineLength = lineLength r\<rparr>)"
    by (rule ext) (simp add: shift_entry_def)
  have a: "items (fst (trimStart count s))
     = map (\<lambda>r. \<lparr>lineIndex = lineIndex r - int count, startIndex = startIndex r - int count,
                  endIndex = endIndex r - int count, lineLength = lineLength r\<rparr>)
         (take (maxLength s) (drop count (items s)))
       @ drop (maxLength s) (drop count (items s))"
    by (simp add: trimStart_result sh)
  have b: "maxLength (fst (trimStart count s)) = maxLength s"
    by (simp add: trimStart_result)
  have c: "length (items s) \<le> maxLength s \<longrightarrow>
        items (fst (trimStart count s))
          = map (\<lambda>r. \<lparr>lineIndex = lineIndex r - int count, startIndex = startIndex r - int count,
                       endIndex = endIndex r - int count, lineLength = lineLength r\<rparr>)
              (drop count (items s))"
    using a by simp
  have d: "maxLength s \<le> length (items s) - count \<longrightarrow> snd (trimStart count s) = None"
    by (simp add: trimStart_result)
  have e: "length (items s) - count < maxLength s \<longrightarrow> snd (trimStart count s) = Some IndexOutOfRange"
    by (simp add: trimStart_result)
  have f: "length (items s) < maxLength s \<longrightarrow> snd (trimStart count s) = Some IndexOutOfRange"
    using e by auto
  have g: "length (items s) \<le> maxLength s \<and> snd (trimStart count s) = None \<longrightarrow>
        length (items s) = maxLength s"
    by (auto simp: trimStart_result split: if_splits)
  from a b c d e f g show ?thesis by blast
qed

theorem trimStart_total_iff_full_witness:
  "items (fst (trimStart 1 state_full))
     = [\<lparr>lineIndex = 0, startIndex = 0, endIndex = 0, lineLength = None\<rparr>]
   \<and> snd (trimStart 1 state_full) = Some IndexOutOfRange
   \<and> items (fst (trimStart 1 state_three))
     = [\<lparr>lineIndex = 0, startIndex = 0, endIndex = 0, lineLength = None\<rparr>,
        \<lparr>lineIndex = 1, startIndex = 1, endIndex = 1, lineLength = None\<rparr>]
   \<and> snd (trimStart 1 state_three) = Some IndexOutOfRange
   \<and> snd (trimStart 0 state_full) = None
   \<and> length (items state_full) = maxLength state_full"
proof -
  have h1: "length (items state_full) \<le> maxLength state_full" by (simp add: state_full_eq)
  have h2: "length (items state_full) - 1 < maxLength state_full" by (simp add: state_full_eq)
  have h3: "length (items state_three) \<le> maxLength state_three" by (simp add: state_three_eq)
  have h4: "length (items state_three) < maxLength state_three" by (simp add: state_three_eq)
  have h5: "maxLength state_full \<le> length (items state_full) - 0" by (simp add: state_full_eq)
  from trimStart_total_iff_full [of 1 state_full] h1 h2
  have a: "items (fst (trimStart 1 state_full))
          = map (\<lambda>r. \<lparr>lineIndex = lineIndex r - int 1, startIndex = startIndex r - int 1,
                       endIndex = endIndex r - int 1, lineLength = lineLength r\<rparr>)
              (drop 1 (items state_full))"
    and b: "snd (trimStart 1 state_full) = Some IndexOutOfRange"
    by blast+
  from trimStart_total_iff_full [of 1 state_three] h3 h4
  have c: "items (fst (trimStart 1 state_three))
          = map (\<lambda>r. \<lparr>lineIndex = lineIndex r - int 1, startIndex = startIndex r - int 1,
                       endIndex = endIndex r - int 1, lineLength = lineLength r\<rparr>)
              (drop 1 (items state_three))"
    and d: "snd (trimStart 1 state_three) = Some IndexOutOfRange"
    by blast+
  from trimStart_total_iff_full [of 0 state_full] h5
  have e: "snd (trimStart 0 state_full) = None" by blast
  from trimStart_total_iff_full [of 0 state_full] h1 e
  have f: "length (items state_full) = maxLength state_full" by blast
  from a have a': "items (fst (trimStart 1 state_full))
     = [\<lparr>lineIndex = 0, startIndex = 0, endIndex = 0, lineLength = None\<rparr>]"
    by (simp add: state_full_eq)
  from c have c': "items (fst (trimStart 1 state_three))
     = [\<lparr>lineIndex = 0, startIndex = 0, endIndex = 0, lineLength = None\<rparr>,
        \<lparr>lineIndex = 1, startIndex = 1, endIndex = 1, lineLength = None\<rparr>]"
    by (simp add: state_three_eq)
  from a' b c' d e f show ?thesis by blast
qed

section \<open>Properties of the render scheduler\<close>

lemma Min_insert_min:
  "finite S \<Longrightarrow> Min (insert (min a b) S) = Min (insert a (insert b S))"
  for a b :: int
  by (cases "S = {}") (simp_all add: min.assoc)

lemma Max_insert_max:
  "finite S \<Longrightarrow> Max (insert (max a b) S) = Max (insert a (insert b S))"
  for a b :: int
  by (cases "S = {}") (simp_all add: max.assoc)

lemma merge_range_min_max:
  "merge_range (s0, e0) q = (min s0 (start q), max e0 (end' q))"
  by (auto simp: merge_range_def Let_def min_def max_def)

lemma foldl_merge_range:
  "foldl merge_range (s0, e0) qs
     = (Min (insert s0 (start ` set qs)), Max (insert e0 (end' ` set qs)))"
proof (induction qs arbitrary: s0 e0)
  case Nil
  then show ?case by simp
next
  case (Cons q qs)
  show ?case
    by (simp add: merge_range_min_max Cons.IH Min_insert_min Max_insert_max insert_commute)
qed

lemma queueRefreshes_queue:
  "refreshRowsQueue (queueRefreshes qs r) = refreshRowsQueue r @ qs"
proof (induction qs arbitrary: r)
  case Nil
  then show ?case by (simp add: queueRefreshes_def)
next
  case (Cons q qs)
  have "queueRefreshes (q # qs) r = queueRefreshes qs (fst (queueRefresh (start q) (end' q) r))"
    by (simp add: queueRefreshes_def)
  then show ?case by (simp add: Cons.IH queueRefresh_def Let_def)
qed

text \<open>A skipped frame counts itself, arms the next frame and leaves the queue as it is.\<close>

lemma refreshLoop_skip:
  assumes "frame_skipped t r"
  shows "refreshLoop t r =
           Inr (r\<lparr>refreshFramesSkipped := refreshFramesSkipped r + 1, refreshAnimationFrame := True\<rparr>,
                [RequestAnimationFrame])"
  using assms by (simp add: refreshLoop_def frame_skipped_def Let_def)

text \<open>A frame that is not skipped dispatches one refresh for the merged range and clears the queue.\<close>

lemma refreshLoop_paint:
  assumes ns: "\<not> frame_skipped t r" and q: "refreshRowsQueue r = q0 # qs"
  shows "\<exists>r'. refreshLoop t r =
           Inr (r', [if length (q0 # qs) > 4 then Refresh 0 (rows t - 1)
                     else Refresh (Min (start ` set (q0 # qs))) (Max (end' ` set (q0 # qs)))])
         \<and> refreshRowsQueue r' = [] \<and> refreshFramesSkipped r' = 0 \<and> \<not> refreshAnimationFrame r'"
proof (cases "length (q0 # qs) > 4")
  case True
  with ns q show ?thesis
    by (auto simp: refreshLoop_def frame_skipped_def Let_def)
next
  case False
  with ns q show ?thesis
    by (auto simp: refreshLoop_def frame_skipped_def Let_def foldl_merge_range)
qed

lemma one_queued_eq:
  "one_queued = \<lparr>refreshRowsQueue = [\<lparr>start = 3, end' = 4\<rparr>], refreshFramesSkipped = 0,
                  refreshAnimationFrame = True\<rparr>"
  by (simp add: one_queued_def queueRefresh_def Renderer_new_def Let_def)

text \<open>
  C4. After one or more calls of \<open>queueRefresh\<close> on an empty queue, a frame callback that
  is not skipped dispatches exactly one refresh and clears the queue; the range is from the
  least queued start to the greatest queued end when at most 4 ranges are queued, and the
  full viewport from 0 to \<open>rows - 1\<close> otherwise.
\<close>

theorem queued_refreshes_merge:
  "qs \<noteq> [] \<and> refreshRowsQueue r0 = [] \<and> \<not> frame_skipped t (queueRefreshes qs r0) \<longrightarrow>
     (\<exists>r'. refreshLoop t (queueRefreshes qs r0) =
           Inr (r', [if length qs \<le> 4
                     then Refresh (Min (start ` set qs)) (Max (end' ` set qs))
                     else Refresh 0 (rows t - 1)])
         \<and> refreshRowsQueue r' = [])"
proof
  assume h: "qs \<noteq> [] \<and> refreshRowsQueue r0 = [] \<and> \<not> frame_skipped t (queueRefreshes qs r0)"
  then obtain q0 rest where qs: "qs = q0 # rest" by (cases qs) auto
  from h have q: "refreshRowsQueue (queueRefreshes qs r0) = q0 # rest"
    by (simp add: queueRefreshes_queue qs)
  from h have ns: "\<not> frame_skipped t (queueRefreshes qs r0)" by simp
  from refreshLoop_paint [OF ns q] show "\<exists>r'. refreshLoop t (queueRefreshes qs r0) =
           Inr (r', [if length qs \<le> 4
                     then Refresh (Min (start ` set qs)) (Max (end' ` set qs))
                     else Refresh 0 (rows t - 1)])
         \<and> refreshRowsQueue r' = []"
    unfolding qs by (auto simp: not_le)
qed

theorem queued_refreshes_merge_witness:
  "\<exists>r'. refreshLoop idle_terminal (queueRefreshes two_ranges Renderer_new) = Inr (r', [Refresh 1 4])
        \<and> refreshRowsQueue r' = []"
proof -
  have h1: "two_ranges \<noteq> []" by (simp add: two_ranges_def)
  have h2: "refreshRowsQueue Renderer_new = []" by (simp add: Renderer_new_def)
  have h3: "\<not> frame_skipped idle_terminal (queueRefreshes two_ranges Renderer_new)"
    by (simp add: frame_skipped_def idle_terminal_def)
  have m: "Min (start ` set two_ranges) = 1" "Max (end' ` set two_ranges) = 4" "length two_ranges \<le> 4"
    by (simp_all add: two_ranges_def)
  from queued_refreshes_merge [of two_ranges Renderer_new idle_terminal] h1 h2 h3
  have "\<exists>r'. refreshLoop idle_terminal (queueRefreshes two_ranges Renderer_new) =
           Inr (r', [if length two_ranges \<le> 4
                     then Refresh (Min (start ` set two_ranges)) (Max (end' ` set two_ranges))
                     else Refresh 0 (rows idle_terminal - 1)])
         \<and> refreshRowsQueue r' = []"
    by blast
  then show ?thesis by (simp only: m if_True)
qed

text \<open>
  C7 (defect of the code). The claim, with the comments of the source, bounds the frames
  skipped in a row by 5. The test \<open>_refreshFramesSkipped++ <= MAX_REFRESH_FRAME_SKIP\<close>
  compares the counter before it is incremented, so the frames with the counter at 0, 1, 2,
  3, 4 and 5 are all skipped: with a pending write, six frame callbacks in a row arm the
  next frame and dispatch no refresh, and the seventh paints.
\<close>

theorem six_frames_skipped:
  "run_frames 6 busy_terminal one_queued =
     Inr (one_queued\<lparr>refreshFramesSkipped := 6\<rparr>,
          [RequestAnimationFrame, RequestAnimationFrame, RequestAnimationFrame,
           RequestAnimationFrame, RequestAnimationFrame, RequestAnimationFrame])
   \<and> run_frames 7 busy_terminal one_queued =
     Inr (\<lparr>refreshRowsQueue = [], refreshFramesSkipped = 0, refreshAnimationFrame = False\<rparr>,
          [RequestAnimationFrame, RequestAnimationFrame, RequestAnimationFrame,
           RequestAnimationFrame, RequestAnimationFrame, RequestAnimationFrame, Refresh 3 4])"
  by (simp add: one_queued_eq busy_terminal_def idle_terminal_def refreshLoop_def MAX_REFRESH_FRAME_SKIP_def
      Let_def eval_nat_numeral)

section \<open>Properties of the cell compositor\<close>

subsection \<open>Decoding an attribute\<close>

lemma decode_inverse:
  assumes "attr_flags data AND INVERSE \<noteq> 0"
  shows "bg (decode_attr brokenBold data)
           = (if promoted (attr_flags data) (attr_fg data) = 257 then 15
              else promoted (attr_flags data) (attr_fg data))"
    and "fg (decode_attr brokenBold data)
           = (if promoted (attr_flags data) (attr_bg data) = 256 then 0
              else promoted (attr_flags data) (attr_bg data))"
  using assms by (simp_all add: decode_attr_def promoted_def BOLD_def Let_def)

lemma decode_plain:
  assumes "attr_flags data AND INVERSE = 0"
  shows "bg (decode_attr brokenBold data) = attr_bg data"
    and "fg (decode_attr brokenBold data) = promoted (attr_flags data) (attr_fg data)"
  using assms by (simp_all add: decode_attr_def promoted_def Let_def)

lemma decode_bold_class:
  "xterm_bold \<in> set (classNames (decode_attr brokenBold data))
     \<longleftrightarrow> attr_flags data AND BOLD \<noteq> 0 \<and> \<not> brokenBold"
  by (simp add: decode_attr_def Let_def)

lemma decode_bg_class:
  "xterm_bg_color c \<in> set (classNames (decode_attr brokenBold data))
     \<longleftrightarrow> c = bg (decode_attr brokenBold data) \<and> c < 256"
  by (auto simp: decode_attr_def Let_def)

lemma attr_inverse_bg257_fields:
  "attr_bg attr_inverse_bg257 = 257" "attr_fg attr_inverse_bg257 = 3"
  "attr_flags attr_inverse_bg257 = 8"
  by (simp_all add: attr_inverse_bg257_def attr_bg_def attr_fg_def attr_flags_def)

lemma attr_inverse_default_fields:
  "attr_bg attr_inverse_default = 256" "attr_fg attr_inverse_default = 257"
  "attr_flags attr_inverse_default = 8"
  by (simp_all add: attr_inverse_default_def attr_bg_def attr_fg_def attr_flags_def)

lemma attr_bold_fg3_fields:
  "attr_bg attr_bold_fg3 = 0" "attr_fg attr_bold_fg3 = 3"
  "attr_flags attr_bold_fg3 = 1"
  by (simp_all add: attr_bold_fg3_def attr_bg_def attr_fg_def attr_flags_def)

lemma attr_bold_inverse_fg3_fields:
  "attr_bg attr_bold_inverse_fg3 = 0" "attr_fg attr_bold_inverse_fg3 = 3"
  "attr_flags attr_bold_inverse_fg3 = 9"
  by (simp_all add: attr_bold_inverse_fg3_def attr_bg_def attr_fg_def attr_flags_def)

text \<open>
  C5 (corrected). The swap puts the stored foreground in the background, so a stored
  background of 257 is not what becomes 15. What holds for every attribute with the inverse
  flag: the final background is the stored foreground (plus 8 when bold and below 8), with
  257 replaced by 15, and the final foreground is the stored background (plus 8 when bold
  and below 8), with 256 replaced by 0; so the final background is never 257, a stored
  foreground of 257 gives the background 15, which the span carries as its class, and a
  stored background of 256 gives the foreground 0.
\<close>

theorem inverse_swaps_and_pins:
  "(attr_flags data AND INVERSE \<noteq> 0 \<longrightarrow>
      bg (decode_attr brokenBold data)
        = (if promoted (attr_flags data) (attr_fg data) = 257 then 15
           else promoted (attr_flags data) (attr_fg data))
      \<and> fg (decode_attr brokenBold data)
        = (if promoted (attr_flags data) (attr_bg data) = 256 then 0
           else promoted (attr_flags data) (attr_bg data))
      \<and> bg (decode_attr brokenBold data) \<noteq> 257)
   \<and> (attr_flags data AND INVERSE \<noteq> 0 \<and> attr_fg data = 257 \<longrightarrow>
      bg (decode_attr brokenBold data) = 15
      \<and> xterm_bg_color 15 \<in> set (classNames (decode_attr brokenBold data)))
   \<and> (attr_flags data AND INVERSE \<noteq> 0 \<and> attr_bg data = 256 \<longrightarrow>
      fg (decode_attr brokenBold data) = 0)"
proof -
  have a: "attr_flags data AND INVERSE \<noteq> 0 \<longrightarrow>
      bg (decode_attr brokenBold data)
        = (if promoted (attr_flags data) (attr_fg data) = 257 then 15
           else promoted (attr_flags data) (attr_fg data))
      \<and> fg (decode_attr brokenBold data)
        = (if promoted (attr_flags data) (attr_bg data) = 256 then 0
           else promoted (attr_flags data) (attr_bg data))
      \<and> bg (decode_attr brokenBold data) \<noteq> 257"
    by (simp add: decode_inverse)
  have b: "attr_flags data AND INVERSE \<noteq> 0 \<and> attr_fg data = 257 \<longrightarrow>
      bg (decode_attr brokenBold data) = 15
      \<and> xterm_bg_color 15 \<in> set (classNames (decode_attr brokenBold data))"
    by (simp add: decode_inverse decode_bg_class promoted_def)
  have c: "attr_flags data AND INVERSE \<noteq> 0 \<and> attr_bg data = 256 \<longrightarrow>
      fg (decode_attr brokenBold data) = 0"
    by (simp add: decode_inverse promoted_def)
  from a b c show ?thesis by blast
qed

theorem inverse_swaps_and_pins_witness:
  "bg (decode_attr False attr_inverse_default) = 15
   \<and> xterm_bg_color 15 \<in> set (classNames (decode_attr False attr_inverse_default))
   \<and> fg (decode_attr False attr_inverse_default) = 0
   \<and> bg (decode_attr False attr_inverse_default) \<noteq> 257"
proof -
  have h1: "attr_flags attr_inverse_default AND INVERSE \<noteq> 0"
    by (simp add: attr_inverse_default_fields INVERSE_def)
  have h2: "attr_fg attr_inverse_default = 257" by (simp add: attr_inverse_default_fields)
  have h3: "attr_bg attr_inverse_default = 256" by (simp add: attr_inverse_default_fields)
  from inverse_swaps_and_pins [of attr_inverse_default False] h1 h2 h3
  show ?thesis by blast
qed

theorem stored_background_257_counterexample:
  "attr_flags attr_inverse_bg257 AND INVERSE \<noteq> 0
   \<and> attr_bg attr_inverse_bg257 = 257
   \<and> bg (decode_attr False attr_inverse_bg257) = 3
   \<and> classNames (decode_attr False attr_inverse_bg257) = [xterm_bg_color 3]"
  by (simp add: decode_attr_def attr_inverse_bg257_fields Let_def INVERSE_def BOLD_def
      UNDERLINE_def BLINK_def INVISIBLE_def)

text \<open>
  C6 (corrected). The capability flag does not stop the promotion: it only decides whether
  the span carries the bold class. What holds for every attribute with the bold flag and a
  stored foreground below 8, whatever the flag: without the inverse flag the final
  foreground is the stored one plus 8, and with the inverse flag the promoted value is the
  final background; the bold class is there exactly when the attribute is bold and bold is
  not broken.
\<close>

theorem bold_promotes_foreground:
  "(attr_flags data AND BOLD \<noteq> 0 \<and> attr_fg data < 8 \<and> attr_flags data AND INVERSE = 0 \<longrightarrow>
      fg (decode_attr brokenBold data) = attr_fg data + 8)
   \<and> (attr_flags data AND BOLD \<noteq> 0 \<and> attr_fg data < 8 \<and> attr_flags data AND INVERSE \<noteq> 0 \<longrightarrow>
      bg (decode_attr brokenBold data) = attr_fg data + 8)
   \<and> (xterm_bold \<in> set (classNames (decode_attr brokenBold data))
        \<longleftrightarrow> attr_flags data AND BOLD \<noteq> 0 \<and> \<not> brokenBold)"
proof -
  have a: "attr_flags data AND BOLD \<noteq> 0 \<and> attr_fg data < 8 \<and> attr_flags data AND INVERSE = 0 \<longrightarrow>
      fg (decode_attr brokenBold data) = attr_fg data + 8"
    by (simp add: decode_plain promoted_def)
  have b: "attr_flags data AND BOLD \<noteq> 0 \<and> attr_fg data < 8 \<and> attr_flags data AND INVERSE \<noteq> 0 \<longrightarrow>
      bg (decode_attr brokenBold data) = attr_fg data + 8"
    by (simp add: decode_inverse promoted_def)
  from a b decode_bold_class [of brokenBold data] show ?thesis by blast
qed

theorem bold_promotes_foreground_witness:
  "fg (decode_attr True attr_bold_fg3) = attr_fg attr_bold_fg3 + 8
   \<and> bg (decode_attr True attr_bold_inverse_fg3) = attr_fg attr_bold_inverse_fg3 + 8
   \<and> xterm_bold \<notin> set (classNames (decode_attr True attr_bold_fg3))"
proof -
  have h1: "attr_flags attr_bold_fg3 AND BOLD \<noteq> 0" by (simp add: attr_bold_fg3_fields BOLD_def)
  have h2: "attr_fg attr_bold_fg3 < 8" by (simp add: attr_bold_fg3_fields)
  have h3: "attr_flags attr_bold_fg3 AND INVERSE = 0" by (simp add: attr_bold_fg3_fields INVERSE_def)
  have h4: "attr_flags attr_bold_inverse_fg3 AND BOLD \<noteq> 0"
    by (simp add: attr_bold_inverse_fg3_fields BOLD_def)
  have h5: "attr_fg attr_bold_inverse_fg3 < 8" by (simp add: attr_bold_inverse_fg3_fields)
  have h6: "attr_flags attr_bold_inverse_fg3 AND INVERSE \<noteq> 0"
    by (simp add: attr_bold_inverse_fg3_fields INVERSE_def)
  from bold_promotes_foreground [of attr_bold_fg3 True] h1 h2 h3
  have a: "fg (decode_attr True attr_bold_fg3) = attr_fg attr_bold_fg3 + 8"
    and c: "xterm_bold \<notin> set (classNames (decode_attr True attr_bold_fg3))"
    by blast+
  from bold_promotes_foreground [of attr_bold_inverse_fg3 True] h4 h5 h6
  have b: "bg (decode_attr True attr_bold_inverse_fg3) = attr_fg attr_bold_inverse_fg3 + 8"
    by blast
  from a b c show ?thesis by blast
qed

theorem broken_bold_counterexample:
  "attr_flags attr_bold_fg3 AND BOLD \<noteq> 0
   \<and> attr_fg attr_bold_fg3 = 3
   \<and> fg (decode_attr True attr_bold_fg3) = 11
   \<and> classNames (decode_attr True attr_bold_fg3) = [xterm_bg_color 0, xterm_color 11]"
  by (simp add: decode_attr_def attr_bold_fg3_fields Let_def INVERSE_def BOLD_def
      UNDERLINE_def BLINK_def INVISIBLE_def)

subsection \<open>Rows longer than the width\<close>

declare trimBlank_loop.simps [simp del]

lemma js_slice_from:
  "0 \<le> a \<Longrightarrow> a \<le> b \<Longrightarrow> js_slice xs a b = take (nat (b - a)) (drop (nat a) xs)"
  by (auto simp: js_slice_def Let_def min_def)

lemma trimBlank_loop_bounds:
  "- 1 \<le> i \<Longrightarrow> - 1 \<le> trimBlank_loop line m b i \<and> trimBlank_loop line m b i \<le> i"
proof (induction line m b i rule: trimBlank_loop.induct)
  case (1 line m b i)
  show ?case
  proof (cases "i \<ge> 0")
    case False
    with "1.prems" show ?thesis by (simp add: trimBlank_loop.simps [of line m b i])
  next
    case True
    then have p: "- 1 \<le> i - 1" by simp
    show ?thesis
    proof (cases "i \<ge> m")
      case True
      note im = this
      show ?thesis
      proof (cases "fst (snd (line ! nat i)) \<noteq> '' ''")
        case True
        with \<open>i \<ge> 0\<close> im show ?thesis by (simp add: trimBlank_loop.simps [of line m b i])
      next
        case False
        with "1.IH"(1) [OF \<open>i \<ge> 0\<close> im _ p] \<open>i \<ge> 0\<close> im show ?thesis
          by (simp add: trimBlank_loop.simps [of line m b i])
      qed
    next
      case False
      note im = this
      show ?thesis
      proof (cases "fst (snd (line ! nat i)) \<noteq> '' '' \<or> fst (line ! nat i) \<noteq> b")
        case True
        with \<open>i \<ge> 0\<close> im show ?thesis by (auto simp: trimBlank_loop.simps [of line m b i])
      next
        case False
        with "1.IH"(2) [OF \<open>i \<ge> 0\<close> im _ p] \<open>i \<ge> 0\<close> im show ?thesis
          by (simp add: trimBlank_loop.simps [of line m b i])
      qed
    qed
  qed
qed

lemma trimBlank_loop_blank:
  "trimBlank_loop line m b i < k \<Longrightarrow> k \<le> i \<Longrightarrow> fst (snd (line ! nat k)) = '' ''"
proof (induction line m b i rule: trimBlank_loop.induct)
  case (1 line m b i)
  show ?case
  proof (cases "i \<ge> 0")
    case False
    with "1.prems" show ?thesis by (simp add: trimBlank_loop.simps [of line m b i])
  next
    case True
    show ?thesis
    proof (cases "i \<ge> m")
      case True
      note im = this
      show ?thesis
      proof (cases "fst (snd (line ! nat i)) \<noteq> '' ''")
        case True
        with \<open>i \<ge> 0\<close> im "1.prems" show ?thesis by (simp add: trimBlank_loop.simps [of line m b i])
      next
        case False
        note bl = this
        show ?thesis
        proof (cases "k = i")
          case True
          with bl show ?thesis by simp
        next
          case False
          with "1.prems" have k: "k \<le> i - 1" by simp
          from "1.prems"(1) \<open>i \<ge> 0\<close> im bl have "trimBlank_loop line m b (i - 1) < k"
            by (simp add: trimBlank_loop.simps [of line m b i])
          from "1.IH"(1) [OF \<open>i \<ge> 0\<close> im _ this k] bl show ?thesis by simp
        qed
      qed
    next
      case False
      note im = this
      show ?thesis
      proof (cases "fst (snd (line ! nat i)) \<noteq> '' '' \<or> fst (line ! nat i) \<noteq> b")
        case True
        with \<open>i \<ge> 0\<close> im "1.prems" show ?thesis by (auto simp: trimBlank_loop.simps [of line m b i])
      next
        case False
        note bl = this
        show ?thesis
        proof (cases "k = i")
          case True
          with bl show ?thesis by simp
        next
          case False
          with "1.prems" have k: "k \<le> i - 1" by simp
          from "1.prems"(1) \<open>i \<ge> 0\<close> im bl have "trimBlank_loop line m b (i - 1) < k"
            by (simp add: trimBlank_loop.simps [of line m b i])
          from "1.IH"(2) [OF \<open>i \<ge> 0\<close> im _ this k] bl show ?thesis by simp
        qed
      qed
    qed
  qed
qed

lemma trimBlank_prefix:
  assumes w: "0 \<le> w" and l: "w < int (length line)"
  shows "\<exists>n. trimBlank line w b = take n line \<and> nat w \<le> n \<and> n \<le> length line
           \<and> (\<forall>k. n \<le> k \<and> k < length line \<longrightarrow> fst (snd (line ! k)) = '' '')"
proof -
  define i where "i = trimBlank_loop line w b (int (length line) - 1)"
  define i' where "i' = (if i < w then w else i + 2)"
  define n where "n = min (nat i') (length line)"
  have bnd: "- 1 \<le> i" "i \<le> int (length line) - 1"
    using trimBlank_loop_bounds [of "int (length line) - 1" line w b] by (simp_all add: i_def)
  have i'0: "0 \<le> i'" "w \<le> i'" "i < i'" using w by (auto simp: i'_def)
  have tk: "take (nat i') line = take (min (nat i') (length line)) line"
    by (cases "nat i' \<le> length line") (simp_all add: min_def)
  have t: "trimBlank line w b = take n line"
    using i'0 by (simp add: trimBlank_def i_def [symmetric] i'_def [symmetric] Let_def js_slice_from n_def tk)
  have n1: "nat w \<le> n" using i'0 l w unfolding n_def by linarith
  have n2: "n \<le> length line" by (simp add: n_def)
  have n3: "i < int n" using i'0 bnd unfolding n_def by linarith
  have "\<forall>k. n \<le> k \<and> k < length line \<longrightarrow> fst (snd (line ! k)) = '' ''"
  proof (intro allI impI)
    fix k assume k: "n \<le> k \<and> k < length line"
    with n3 have "trimBlank_loop line w b (int (length line) - 1) < int k" "int k \<le> int (length line) - 1"
      by (simp_all add: i_def)
    from trimBlank_loop_blank [OF this] show "fst (snd (line ! k)) = '' ''" by simp
  qed
  with t n1 n2 show ?thesis by blast
qed

lemma chunkArray_loop_chunks:
  assumes cs: "1 \<le> cs"
  shows "0 \<le> i \<Longrightarrow>
    \<exists>chunks. chunkArray_loop array cs i acc = Some (acc @ chunks)
      \<and> concat chunks = drop (nat i) array
      \<and> (\<forall>c \<in> set chunks. c \<noteq> [] \<and> int (length c) \<le> cs)
      \<and> (\<forall>c \<in> set (butlast chunks). int (length c) = cs)
      \<and> (chunks = [] \<longleftrightarrow> int (length array) \<le> i)
      \<and> int (length array) - i \<le> int (length chunks) * cs
      \<and> (chunks \<noteq> [] \<longrightarrow> (int (length chunks) - 1) * cs < int (length array) - i)"
proof (induction "nat (int (length array) - i)" arbitrary: i acc rule: less_induct)
  case less
  show ?case
  proof (cases "i < int (length array)")
    case False
    then have "chunkArray_loop array cs i acc = Some acc"
      by (subst chunkArray_loop.simps) simp
    with False show ?thesis by simp
  next
    case True
    define sl where "sl = js_slice array i (i + cs)"
    have sl: "sl = take (nat cs) (drop (nat i) array)"
      using less.prems cs by (simp add: sl_def js_slice_from)
    have slne: "sl \<noteq> []" using True cs less.prems by (simp add: sl)
    have sllen: "int (length sl) \<le> cs" using cs by (simp add: sl)
    have e: "chunkArray_loop array cs i acc = chunkArray_loop array cs (i + cs) (acc @ [sl])"
      using True by (subst chunkArray_loop.simps) (simp add: sl_def)
    have m: "nat (int (length array) - (i + cs)) < nat (int (length array) - i)"
      using True cs by simp
    have p: "0 \<le> i + cs" using less.prems cs by simp
    from less.hyps [OF m p, of "acc @ [sl]"] obtain chunks where
      c1: "chunkArray_loop array cs (i + cs) (acc @ [sl]) = Some ((acc @ [sl]) @ chunks)"
      and c2: "concat chunks = drop (nat (i + cs)) array"
      and c3: "\<forall>c \<in> set chunks. c \<noteq> [] \<and> int (length c) \<le> cs"
      and c4: "\<forall>c \<in> set (butlast chunks). int (length c) = cs"
      and c5: "chunks = [] \<longleftrightarrow> int (length array) \<le> i + cs"
      and c6: "int (length array) - (i + cs) \<le> int (length chunks) * cs"
      and c7: "chunks \<noteq> [] \<longrightarrow> (int (length chunks) - 1) * cs < int (length array) - (i + cs)"
      by blast
    have d: "drop (nat (i + cs)) array = drop (nat cs) (drop (nat i) array)"
      using less.prems cs by (simp add: nat_add_distrib add.commute)
    have r1: "chunkArray_loop array cs i acc = Some (acc @ (sl # chunks))"
      using e c1 by simp
    have "take (nat cs) (drop (nat i) array) @ drop (nat cs) (drop (nat i) array) = drop (nat i) array"
      by (rule append_take_drop_id)
    then have r2: "concat (sl # chunks) = drop (nat i) array"
      by (simp only: concat.simps c2 d sl)
    have r3: "\<forall>c \<in> set (sl # chunks). c \<noteq> [] \<and> int (length c) \<le> cs"
      using c3 slne sllen by simp
    have r4: "\<forall>c \<in> set (butlast (sl # chunks)). int (length c) = cs"
    proof (cases "chunks = []")
      case True
      then show ?thesis by simp
    next
      case False
      with c5 have "i + cs < int (length array)" by simp
      then have "int (length sl) = cs" using less.prems cs by (simp add: sl)
      with c4 False show ?thesis by simp
    qed
    have r5: "(sl # chunks = []) \<longleftrightarrow> int (length array) \<le> i" using True by simp
    have r6: "int (length array) - i \<le> int (length (sl # chunks)) * cs"
      using c6 by (simp add: algebra_simps)
    have r7: "sl # chunks \<noteq> [] \<longrightarrow> (int (length (sl # chunks)) - 1) * cs < int (length array) - i"
    proof (cases "chunks = []")
      case True
      with \<open>i < int (length array)\<close> show ?thesis by simp
    next
      case False
      with c7 show ?thesis by (simp add: algebra_simps)
    qed
    from r1 r2 r3 r4 r5 r6 r7 show ?thesis by blast
  qed
qed

lemma overflow_chunks:
  assumes w: "1 \<le> width" and l: "width < int (length line)"
  shows "\<exists>segs n. chunkArray (trimBlank line width blank) width = Some segs
        \<and> segs \<noteq> []
        \<and> concat segs = take n line \<and> nat width \<le> n \<and> n \<le> length line
        \<and> (\<forall>k. n \<le> k \<and> k < length line \<longrightarrow> fst (snd (line ! k)) = '' '')
        \<and> (\<forall>c \<in> set segs. c \<noteq> [] \<and> int (length c) \<le> width)
        \<and> (\<forall>c \<in> set (butlast segs). int (length c) = width)
        \<and> int (length (hd segs)) = width
        \<and> int n \<le> int (length segs) * width
        \<and> (int (length segs) - 1) * width < int n
        \<and> split_overflow line width blank pending
            = Some (Composite (last segs) (butlast segs))"
proof -
  from w have w0: "0 \<le> width" by simp
  from trimBlank_prefix [OF w0 l, of blank] obtain n where
    t: "trimBlank line width blank = take n line" and n1: "nat width \<le> n" and n2: "n \<le> length line"
    and n3: "\<forall>k. n \<le> k \<and> k < length line \<longrightarrow> fst (snd (line ! k)) = '' ''"
    by blast
  have len: "length (take n line) = n" using n2 by simp
  from chunkArray_loop_chunks [OF w, of 0 "take n line" "[]"] obtain segs where
    c1: "chunkArray_loop (take n line) width 0 [] = Some segs"
    and c2: "concat segs = take n line"
    and c3: "\<forall>c \<in> set segs. c \<noteq> [] \<and> int (length c) \<le> width"
    and c4: "\<forall>c \<in> set (butlast segs). int (length c) = width"
    and c5: "segs = [] \<longleftrightarrow> int (length (take n line)) \<le> 0"
    and c6: "int (length (take n line)) - 0 \<le> int (length segs) * width"
    and c7: "segs \<noteq> [] \<longrightarrow> (int (length segs) - 1) * width < int (length (take n line)) - 0"
    by auto
  from c5 len n1 w have ne: "segs \<noteq> []" by auto
  have hdw: "int (length (hd segs)) = width"
  proof (cases segs)
    case Nil
    with ne show ?thesis by simp
  next
    case (Cons c rest)
    show ?thesis
    proof (cases rest)
      case Nil
      with Cons c2 len have "length c = n" by simp
      moreover from c3 Cons have "int (length c) \<le> width" by simp
      ultimately show ?thesis using n1 w Cons by simp
    next
      case (Cons d rest')
      with \<open>segs = c # rest\<close> c4 show ?thesis by simp
    qed
  qed
  have ch: "chunkArray (trimBlank line width blank) width = Some segs"
    by (simp add: chunkArray_def t c1)
  have sp: "split_overflow line width blank pending = Some (Composite (last segs) (butlast segs))"
    using l ne by (simp add: split_overflow_def ch)
  from ch ne c2 n1 n2 n3 c3 c4 hdw c6 c7 len sp show ?thesis by auto
qed

lemma trimBlank_loop_stop:
  "j \<le> i \<Longrightarrow>
   \<forall>k. j < k \<and> k \<le> i \<longrightarrow> 0 \<le> k \<and> fst (snd (line ! nat k)) = '' '' \<and> (k < m \<longrightarrow> fst (line ! nat k) = b) \<Longrightarrow>
   0 \<le> j \<longrightarrow> fst (snd (line ! nat j)) \<noteq> '' '' \<or> (j < m \<and> fst (line ! nat j) \<noteq> b) \<Longrightarrow>
   j < 0 \<longrightarrow> j = - 1 \<Longrightarrow>
   trimBlank_loop line m b i = j"
proof (induction line m b i rule: trimBlank_loop.induct)
  case (1 line m b i)
  show ?case
  proof (cases "j = i")
    case True
    with "1.prems"(3,4) show ?thesis
      by (subst trimBlank_loop.simps) auto
  next
    case False
    with "1.prems"(1) have ji: "j < i" "j \<le> i - 1" by simp_all
    with "1.prems"(2) have bl: "0 \<le> i" "fst (snd (line ! nat i)) = '' ''" "i < m \<longrightarrow> fst (line ! nat i) = b"
      by auto
    have rest: "\<forall>k. j < k \<and> k \<le> i - 1 \<longrightarrow> 0 \<le> k \<and> fst (snd (line ! nat k)) = '' '' \<and> (k < m \<longrightarrow> fst (line ! nat k) = b)"
      using "1.prems"(2) by auto
    show ?thesis
    proof (cases "i \<ge> m")
      case True
      from "1.IH"(1) [OF bl(1) True _ ji(2) rest "1.prems"(3) "1.prems"(4)] bl True
      show ?thesis by (simp add: trimBlank_loop.simps [of line m b i])
    next
      case False
      from "1.IH"(2) [OF bl(1) False _ ji(2) rest "1.prems"(3) "1.prems"(4)] bl False
      show ?thesis by (simp add: trimBlank_loop.simps [of line m b i])
    qed
  qed
qed

lemma trimBlank_loop_below:
  "- 1 \<le> i \<Longrightarrow> 0 \<le> m \<Longrightarrow>
   \<forall>k. m \<le> k \<and> k \<le> i \<longrightarrow> fst (snd (line ! nat k)) = '' '' \<Longrightarrow>
   trimBlank_loop line m b i < m"
proof (induction line m b i rule: trimBlank_loop.induct)
  case (1 line m b i)
  show ?case
  proof (cases "i \<ge> 0")
    case False
    with "1.prems" show ?thesis by (simp add: trimBlank_loop.simps [of line m b i])
  next
    case True
    show ?thesis
    proof (cases "i \<ge> m")
      case im: True
      with "1.prems"(3) have bl: "fst (snd (line ! nat i)) = '' ''" by simp
      have p: "- 1 \<le> i - 1" using True by simp
      have r: "\<forall>k. m \<le> k \<and> k \<le> i - 1 \<longrightarrow> fst (snd (line ! nat k)) = '' ''"
        using "1.prems"(3) by simp
      from "1.IH"(1) [OF True im _ p "1.prems"(2) r] bl True im show ?thesis
        by (simp add: trimBlank_loop.simps [of line m b i])
    next
      case False
      with trimBlank_loop_bounds [of i line m b] "1.prems"(1) show ?thesis by simp
    qed
  qed
qed

lemma trimBlank_all_space:
  assumes w: "0 \<le> w" and l: "w < int (length line)"
    and sp: "\<forall>k. nat w \<le> k \<and> k < length line \<longrightarrow> fst (snd (line ! k)) = '' ''"
  shows "trimBlank line w b = take (nat w) line"
proof -
  have a: "\<forall>k. w \<le> k \<and> k \<le> int (length line) - 1 \<longrightarrow> fst (snd (line ! nat k)) = '' ''"
  proof (intro allI impI)
    fix k assume "w \<le> k \<and> k \<le> int (length line) - 1"
    then have "nat w \<le> nat k \<and> nat k < length line" using w by auto
    with sp show "fst (snd (line ! nat k)) = '' ''" by blast
  qed
  have "- 1 \<le> int (length line) - 1" by simp
  from trimBlank_loop_below [OF this w a, of b]
  have "trimBlank_loop line w b (int (length line) - 1) < w" .
  then show ?thesis using w by (simp add: trimBlank_def Let_def js_slice_from)
qed

lemma trimBlank_last_char:
  assumes w: "0 \<le> w" and j1: "nat w \<le> j" and j2: "j < length line"
    and ch: "fst (snd (line ! j)) \<noteq> '' ''"
    and sp: "\<forall>k. j < k \<and> k < length line \<longrightarrow> fst (snd (line ! k)) = '' ''"
  shows "trimBlank line w b = take (j + 2) line"
proof -
  have wj: "w \<le> int j" using j1 by linarith
  have "trimBlank_loop line w b (int (length line) - 1) = int j"
  proof (rule trimBlank_loop_stop)
    show "int j \<le> int (length line) - 1" using j2 by simp
    show "\<forall>k. int j < k \<and> k \<le> int (length line) - 1 \<longrightarrow>
            0 \<le> k \<and> fst (snd (line ! nat k)) = '' '' \<and> (k < w \<longrightarrow> fst (line ! nat k) = b)"
    proof (intro allI impI)
      fix k assume k: "int j < k \<and> k \<le> int (length line) - 1"
      then have "j < nat k \<and> nat k < length line" by auto
      with sp have "fst (snd (line ! nat k)) = '' ''" by blast
      with k wj show "0 \<le> k \<and> fst (snd (line ! nat k)) = '' '' \<and> (k < w \<longrightarrow> fst (line ! nat k) = b)"
        by auto
    qed
    show "0 \<le> int j \<longrightarrow> fst (snd (line ! nat (int j))) \<noteq> '' '' \<or> (int j < w \<and> fst (line ! nat (int j)) \<noteq> b)"
      using ch by simp
    show "int j < 0 \<longrightarrow> int j = - 1" by simp
  qed
  then show ?thesis using wj
    by (simp add: trimBlank_def Let_def js_slice_from nat_add_distrib)
qed

lemma chunk_lengths:
  "segs \<noteq> [] \<Longrightarrow> \<forall>c \<in> set (butlast segs). length c = w \<Longrightarrow>
   map length segs
     = replicate (length segs - 1) w @ [length (concat segs) - (length segs - 1) * w]"
proof (induction segs)
  case Nil
  then show ?case by simp
next
  case (Cons c rest)
  show ?case
  proof (cases "rest = []")
    case True
    then show ?thesis by simp
  next
    case False
    with Cons.prems have cw: "length c = w" and r: "\<forall>c \<in> set (butlast rest). length c = w"
      by simp_all
    from Cons.IH [OF False r]
    have ih: "map length rest
        = replicate (length rest - 1) w @ [length (concat rest) - (length rest - 1) * w]" .
    obtain k where k: "length rest = Suc k" using False by (cases rest) simp_all
    show ?thesis using ih cw k by (simp add: replicate_app_Cons_same)
  qed
qed

lemma ceil_div_unique:
  assumes w: "1 \<le> w" and lo: "(k - 1) * w < n" and hi: "n \<le> k * w"
  shows "Math_ceil_div n w = k"
proof -
  have wr: "0 < real_of_int w" using w by simp
  have "real_of_int ((k - 1) * w) < real_of_int n" using lo by (simp only: of_int_less_iff)
  then have "(real_of_int k - 1) * real_of_int w < real_of_int n" by simp
  then have a: "real_of_int k - 1 < real_of_int n / real_of_int w"
    using wr by (simp add: pos_less_divide_eq)
  have "real_of_int n \<le> real_of_int (k * w)" using hi by (simp only: of_int_le_iff)
  then have "real_of_int n \<le> real_of_int k * real_of_int w" by simp
  then have b: "real_of_int n / real_of_int w \<le> real_of_int k"
    using wr by (simp add: pos_divide_le_eq)
  from a b show ?thesis unfolding Math_ceil_div_def by (rule ceiling_unique)
qed

lemma overflow_segments:
  assumes w: "1 \<le> width" and l: "width < int (length line)"
  shows "\<exists>segs. chunkArray (trimBlank line width blank) width = Some segs
        \<and> segs \<noteq> []
        \<and> concat segs = trimBlank line width blank
        \<and> (\<forall>c \<in> set (butlast segs). int (length c) = width)
        \<and> 1 \<le> length (last segs) \<and> int (length (last segs)) \<le> width
        \<and> int (length (hd segs)) = width
        \<and> int (length segs) = Math_ceil_div (int (length (trimBlank line width blank))) width
        \<and> map length segs
            = replicate (length segs - 1) (nat width)
              @ [length (trimBlank line width blank) - (length segs - 1) * nat width]
        \<and> int (length (trimBlank line width blank)) \<le> int (length segs) * width
        \<and> (int (length segs) - 1) * width < int (length (trimBlank line width blank))
        \<and> split_overflow line width blank pending
            = Some (Composite (last segs) (butlast segs))"
proof -
  define kept where "kept = trimBlank line width blank"
  from w have w0: "0 \<le> width" by simp
  from trimBlank_prefix [OF w0 l, of blank] obtain n where
    t: "kept = take n line" and n1: "nat width \<le> n" and n2: "n \<le> length line"
    unfolding kept_def by blast
  have len: "length kept = n" using n2 by (simp add: t)
  from chunkArray_loop_chunks [OF w, of 0 kept "[]"] obtain segs where
    c1: "chunkArray_loop kept width 0 [] = Some segs"
    and c2: "concat segs = kept"
    and c3: "\<forall>c \<in> set segs. c \<noteq> [] \<and> int (length c) \<le> width"
    and c4: "\<forall>c \<in> set (butlast segs). int (length c) = width"
    and c5: "segs = [] \<longleftrightarrow> int (length kept) \<le> 0"
    and c6: "int (length kept) - 0 \<le> int (length segs) * width"
    and c7: "segs \<noteq> [] \<longrightarrow> (int (length segs) - 1) * width < int (length kept) - 0"
    by auto
  from c5 len n1 w have ne: "segs \<noteq> []" by auto
  then have lastin: "last segs \<in> set segs" by simp
  with c3 have la: "last segs \<noteq> []" "int (length (last segs)) \<le> width" by simp_all
  then have la1: "1 \<le> length (last segs)" by (cases "last segs") simp_all
  have c4n: "\<forall>c \<in> set (butlast segs). length c = nat width"
    using c4 by auto
  have ml: "map length segs
      = replicate (length segs - 1) (nat width) @ [length kept - (length segs - 1) * nat width]"
    using chunk_lengths [OF ne c4n] by (simp add: c2)
  have hdw: "int (length (hd segs)) = width"
  proof (cases segs)
    case Nil
    with ne show ?thesis by simp
  next
    case (Cons c rest)
    show ?thesis
    proof (cases rest)
      case Nil
      with Cons c2 len have "length c = n" by simp
      moreover from c3 Cons have "int (length c) \<le> width" by simp
      ultimately show ?thesis using n1 w Cons by simp
    next
      case (Cons d rest')
      with \<open>segs = c # rest\<close> c4 show ?thesis by simp
    qed
  qed
  have cnt: "int (length segs) = Math_ceil_div (int (length kept)) width"
    using ceil_div_unique [OF w, of "int (length segs)" "int (length kept)"] c6 c7 ne by simp
  have ch: "chunkArray kept width = Some segs" by (simp add: chunkArray_def c1)
  have sp: "split_overflow line width blank pending = Some (Composite (last segs) (butlast segs))"
    using l ne ch by (simp add: split_overflow_def kept_def)
  have b1: "int (length kept) \<le> int (length segs) * width" using c6 by simp
  have b2: "(int (length segs) - 1) * width < int (length kept)" using c7 ne by simp
  from ch ne c2 c4 la1 la(2) hdw cnt ml b1 b2 sp show ?thesis unfolding kept_def by blast
qed

lemma trimBlank_length:
  assumes w: "1 \<le> width" and l: "width < int (length line)"
  shows "nat width \<le> length (trimBlank line width blank)"
    and "length (trimBlank line width blank) \<le> length line"
proof -
  from w have w0: "0 \<le> width" by simp
  from trimBlank_prefix [OF w0 l, of blank] obtain n where
    t: "trimBlank line width blank = take n line" and n1: "nat width \<le> n" and n2: "n \<le> length line"
    by blast
  show "nat width \<le> length (trimBlank line width blank)" using n1 n2 by (simp add: t)
  show "length (trimBlank line width blank) \<le> length line" by (simp add: t)
qed

lemma row_of_25:
  assumes l: "length line = 25"
  shows "\<exists>segs. chunkArray (trimBlank line 10 blank) 10 = Some segs
        \<and> 1 \<le> length segs \<and> length segs \<le> 3 \<and> length (hd segs) = 10
        \<and> (fst (snd (line ! 24)) \<noteq> '' '' \<or> fst (snd (line ! 23)) \<noteq> '' ''
             \<longrightarrow> map length segs = [10, 10, 5])
        \<and> ((\<forall>k. 10 \<le> k \<and> k < 25 \<longrightarrow> fst (snd (line ! k)) = '' '')
             \<longrightarrow> map length segs = [10])"
proof -
  define kept where "kept = trimBlank line 10 blank"
  have w: "(1::int) \<le> 10" and w0: "(0::int) \<le> 10" by simp_all
  have lw: "(10::int) < int (length line)" using l by simp
  from overflow_segments [OF w lw, of blank "[]"] obtain segs where
    ch: "chunkArray kept 10 = Some segs" and ne: "segs \<noteq> []"
    and hdw: "int (length (hd segs)) = 10"
    and ml: "map length segs
            = replicate (length segs - 1) (nat 10) @ [length kept - (length segs - 1) * nat 10]"
    and b1: "int (length kept) \<le> int (length segs) * 10"
    and b2: "(int (length segs) - 1) * 10 < int (length kept)"
    unfolding kept_def by blast
  from trimBlank_length [OF w lw, of blank] l
  have k1: "10 \<le> length kept" and k2: "length kept \<le> 25" by (simp_all add: kept_def)
  have g1: "1 \<le> length segs" using ne by (cases segs) simp_all
  have g2: "length segs \<le> 3" using b2 k2 by simp
  have g3: "length (hd segs) = 10" using hdw by simp
  have g4: "fst (snd (line ! 24)) \<noteq> '' '' \<or> fst (snd (line ! 23)) \<noteq> '' ''
             \<longrightarrow> map length segs = [10, 10, 5]"
  proof
    assume h: "fst (snd (line ! 24)) \<noteq> '' '' \<or> fst (snd (line ! 23)) \<noteq> '' ''"
    have "length kept = 25"
    proof (cases "fst (snd (line ! 24)) \<noteq> '' ''")
      case True
      have "kept = take (24 + 2) line" unfolding kept_def
        by (rule trimBlank_last_char [OF w0]) (use True l in auto)
      then show ?thesis using l by simp
    next
      case False
      with h have c23: "fst (snd (line ! 23)) \<noteq> '' ''" by simp
      have sp: "\<forall>k. 23 < k \<and> k < length line \<longrightarrow> fst (snd (line ! k)) = '' ''"
      proof (intro allI impI)
        fix k :: nat assume "23 < k \<and> k < length line"
        with l have "k = 24" by simp
        with False show "fst (snd (line ! k)) = '' ''" by simp
      qed
      have "kept = take (23 + 2) line" unfolding kept_def
        by (rule trimBlank_last_char [OF w0 _ _ c23 sp]) (use l in simp_all)
      then show ?thesis using l by simp
    qed
    moreover from this b1 b2 have "length segs = 3" by simp
    ultimately show "map length segs = [10, 10, 5]" using ml by (simp add: numeral_2_eq_2)
  qed
  have g5: "(\<forall>k. 10 \<le> k \<and> k < 25 \<longrightarrow> fst (snd (line ! k)) = '' '')
             \<longrightarrow> map length segs = [10]"
  proof
    assume h: "\<forall>k. 10 \<le> k \<and> k < 25 \<longrightarrow> fst (snd (line ! k)) = '' ''"
    have "kept = take (nat 10) line" unfolding kept_def
      by (rule trimBlank_all_space [OF w0 lw]) (use h l in simp)
    then have "length kept = 10" using l by simp
    moreover from this b1 b2 g1 have "length segs = 1" by simp
    ultimately show "map length segs = [10]" using ml by simp
  qed
  from ch g1 g2 g3 g4 g5 show ?thesis unfolding kept_def
    by (intro exI [of _ segs]) simp
qed

lemma trimBlank_loop_examples:
  "trimBlank_loop row_full 10 0 24 = 24"
  "trimBlank_loop row_blank 10 0 24 = - 1"
  "trimBlank_loop row_half 10 0 24 = 11"
proof -
  show "trimBlank_loop row_full 10 0 24 = 24"
    by (rule trimBlank_loop_stop) (auto simp: row_full_def cell_x_def)
  show "trimBlank_loop row_blank 10 0 24 = - 1"
    by (rule trimBlank_loop_stop) (auto simp: row_blank_def blank_cell_def)
  show "trimBlank_loop row_half 10 0 24 = 11"
    by (rule trimBlank_loop_stop) (auto simp: row_half_def blank_cell_def cell_x_def nth_append)
qed

lemma row_lengths:
  "length row_full = 25" "length row_blank = 25" "length row_half = 25"
  by (simp_all add: row_full_def row_blank_def row_half_def)

lemma trimBlank_examples:
  "trimBlank row_full 10 0 = row_full"
  "trimBlank row_blank 10 0 = replicate 10 blank_cell"
  "trimBlank row_half 10 0 = replicate 12 cell_x @ [blank_cell]"
proof -
  show "trimBlank row_full 10 0 = row_full"
    by (simp add: trimBlank_def row_lengths trimBlank_loop_examples js_slice_def)
  show "trimBlank row_blank 10 0 = replicate 10 blank_cell"
    by (simp add: trimBlank_def row_lengths trimBlank_loop_examples js_slice_def)
       (simp add: row_blank_def)
  show "trimBlank row_half 10 0 = replicate 12 cell_x @ [blank_cell]"
    by (simp add: trimBlank_def row_lengths trimBlank_loop_examples js_slice_def)
       (simp add: row_half_def)
qed

lemma chunkArray_loop_step:
  "i < int (length array) \<Longrightarrow>
   chunkArray_loop array cs i acc
     = chunkArray_loop array cs (i + cs) (acc @ [js_slice array i (i + cs)])"
  by (subst chunkArray_loop.simps) simp

lemma chunkArray_loop_stop:
  "\<not> i < int (length array) \<Longrightarrow> chunkArray_loop array cs i acc = Some acc"
  by (subst chunkArray_loop.simps) simp

text \<open>
  Three rows of 25 cells at width 10: without a blank the segments have lengths 10, 10 and
  5; an all-blank row keeps one segment of 10; a row that is blank after its first 12 cells
  keeps 13 cells, in segments of 10 and 3.
\<close>

lemma chunk_examples:
  "map_option (map length) (chunkArray (trimBlank row_full 10 0) 10) = Some [10, 10, 5]"
  "map_option (map length) (chunkArray (trimBlank row_blank 10 0) 10) = Some [10]"
  "map_option (map length) (chunkArray (trimBlank row_half 10 0) 10) = Some [10, 3]"
  by (simp_all add: trimBlank_examples chunkArray_def row_lengths chunkArray_loop_step
      chunkArray_loop_stop js_slice_def)

subsection \<open>The row loop\<close>

declare refresh_loop.simps [simp del]

lemma refresh_loop_pending:
  assumes ob: "overflowBuffer st = ob @ [s]" and s: "int (length s) \<le> cols t"
    and rc: "renderCount st \<le> rowsToRender" and cy: "child_exists t (row_y st)"
    and ck: "child_exists t (end1 - renderCount st)"
  shows "refresh_loop t end1 rowsToRender st =
         refresh_loop t end1 rowsToRender
           (st\<lparr>overflowBuffer := ob, inOverflow := True, renderCount := renderCount st + 1,
               painted := painted st @ [(end1 - renderCount st, s, cursor_column t (row_y st))]\<rparr>)"
proof -
  have sp: "split_overflow s (cols t) (defAttr t) ob = Some (Composite s ob)"
    using s by (simp add: split_overflow_def)
  show ?thesis
    using ob rc cy ck sp
    by (subst refresh_loop.simps) (cases st, simp add: Let_def)
qed

lemma refresh_loop_finished:
  "\<not> renderCount st \<le> rowsToRender \<Longrightarrow>
   refresh_loop t end1 rowsToRender st = Some (Inr (Finished, st))"
  by (subst refresh_loop.simps) simp

lemma refresh_loop_some_pending:
  "overflowBuffer st = ob \<Longrightarrow>
   \<forall>s \<in> set ob. int (length s) \<le> cols t \<Longrightarrow>
   m \<le> length ob \<Longrightarrow>
   renderCount st + int m \<le> rowsToRender + 1 \<Longrightarrow>
   child_exists t (row_y st) \<Longrightarrow>
   \<forall>j < m. child_exists t (end1 - renderCount st - int j) \<Longrightarrow>
   \<exists>st'. refresh_loop t end1 rowsToRender st = refresh_loop t end1 rowsToRender st'
     \<and> overflowBuffer st' = take (length ob - m) ob \<and> row_y st' = row_y st
     \<and> renderCount st' = renderCount st + int m
     \<and> painted st' = painted st
          @ map (\<lambda>j. (end1 - renderCount st - int j, rev ob ! j, cursor_column t (row_y st)))
              [0 ..< m]"
proof (induction m arbitrary: st ob)
  case 0
  then show ?case by auto
next
  case (Suc m)
  from Suc.prems(3) have ne: "ob \<noteq> []" by auto
  define s where "s = last ob"
  define ob' where "ob' = butlast ob"
  have obs: "ob = ob' @ [s]" using ne by (simp add: s_def ob'_def)
  define st1 where "st1 = st\<lparr>overflowBuffer := ob', inOverflow := True, renderCount := renderCount st + 1,
               painted := painted st @ [(end1 - renderCount st, s, cursor_column t (row_y st))]\<rparr>"
  have o: "overflowBuffer st = ob' @ [s]" using Suc.prems(1) obs by simp
  have sl: "int (length s) \<le> cols t" using Suc.prems(2) obs by simp
  have rc: "renderCount st \<le> rowsToRender" using Suc.prems(4) by simp
  have ck: "child_exists t (end1 - renderCount st)" using Suc.prems(6) [rule_format, of 0] by simp
  have e1: "refresh_loop t end1 rowsToRender st = refresh_loop t end1 rowsToRender st1"
    unfolding st1_def by (rule refresh_loop_pending [OF o sl rc Suc.prems(5) ck])
  have p1: "overflowBuffer st1 = ob'" by (simp add: st1_def)
  have p2: "\<forall>s \<in> set ob'. int (length s) \<le> cols t" using Suc.prems(2) obs by simp
  have p3: "m \<le> length ob'" using Suc.prems(3) obs by simp
  have p4: "renderCount st1 + int m \<le> rowsToRender + 1"
    using Suc.prems(4) by (simp add: st1_def)
  have p5: "child_exists t (row_y st1)" using Suc.prems(5) by (simp add: st1_def)
  have p6: "\<forall>j < m. child_exists t (end1 - renderCount st1 - int j)"
  proof (intro allI impI)
    fix j assume "j < m"
    with Suc.prems(6) [rule_format, of "Suc j"] show "child_exists t (end1 - renderCount st1 - int j)"
      by (simp add: st1_def algebra_simps)
  qed
  from Suc.IH [OF p1 p2 p3 p4 p5 p6] obtain st' where
    e2: "refresh_loop t end1 rowsToRender st1 = refresh_loop t end1 rowsToRender st'"
    and q1: "overflowBuffer st' = take (length ob' - m) ob'" and q2: "row_y st' = row_y st1"
    and q3: "renderCount st' = renderCount st1 + int m"
    and q4: "painted st' = painted st1
          @ map (\<lambda>j. (end1 - renderCount st1 - int j, rev ob' ! j, cursor_column t (row_y st1)))
              [0 ..< m]"
    by blast
  have tk: "take (length ob' - m) ob' = take (length ob - Suc m) ob"
    by (simp add: obs)
  have mp: "map (\<lambda>j. (end1 - renderCount st - int j, rev ob ! j, cursor_column t (row_y st)))
              [0 ..< Suc m]
      = (end1 - renderCount st, s, cursor_column t (row_y st))
        # map (\<lambda>j. (end1 - renderCount st1 - int j, rev ob' ! j, cursor_column t (row_y st1)))
              [0 ..< m]"
    by (simp add: map_upt_Suc st1_def obs algebra_simps del: upt_Suc)
  have "painted st' = painted st
          @ map (\<lambda>j. (end1 - renderCount st - int j, rev ob ! j, cursor_column t (row_y st)))
              [0 ..< Suc m]"
    unfolding mp q4 by (simp add: st1_def)
  moreover have "renderCount st' = renderCount st + int (Suc m)"
    using q3 by (simp add: st1_def)
  moreover have "row_y st' = row_y st" using q2 by (simp add: st1_def)
  moreover have "refresh_loop t end1 rowsToRender st = refresh_loop t end1 rowsToRender st'"
    using e1 e2 by simp
  moreover have "overflowBuffer st' = take (length ob - Suc m) ob" using q1 tk by simp
  ultimately show ?case by blast
qed

lemma refresh_loop_long_line:
  assumes ob: "overflowBuffer st = []"
    and ln: "term_lines t (row_y st - 1 + ydisp t) = Some line"
    and w: "1 \<le> cols t" and l: "cols t < int (length line)"
    and cy: "child_exists t (row_y st - 1)"
    and ch: "chunkArray (trimBlank line (cols t) (defAttr t)) (cols t) = Some segs"
    and m1: "1 \<le> m" and m2: "m \<le> length segs"
    and fit: "renderCount st + int m \<le> rowsToRender + 1"
    and ck: "\<forall>j < m. child_exists t (end1 - renderCount st - int j)"
  shows "\<exists>st'. refresh_loop t end1 rowsToRender st = refresh_loop t end1 rowsToRender st'
     \<and> overflowBuffer st' = take (length segs - m) segs \<and> row_y st' = row_y st - 1
     \<and> renderCount st' = renderCount st + int m
     \<and> painted st' = painted st
          @ map (\<lambda>j. (end1 - renderCount st - int j, rev segs ! j, cursor_column t (row_y st - 1)))
              [0 ..< m]"
proof -
  from overflow_chunks [OF w l, of "defAttr t" "[]"] ch
  have ne: "segs \<noteq> []" and c3: "\<forall>c \<in> set segs. c \<noteq> [] \<and> int (length c) \<le> cols t"
    and sp: "split_overflow line (cols t) (defAttr t) [] = Some (Composite (last segs) (butlast segs))"
    by auto
  obtain m' where m': "m = Suc m'" using m1 by (cases m) simp_all
  have rc: "renderCount st \<le> rowsToRender" using fit m1 by simp
  define st0 where "st0 = st\<lparr>inOverflow := False, row_y := row_y st - 1\<rparr>"
  have seg: "butlast segs @ [last segs] = segs" using ne by simp
  have k: "child_exists t (end1 - renderCount st)" using ck [rule_format, of 0] m1 by simp
  define st2 where "st2 = st0\<lparr>overflowBuffer := butlast segs, renderCount := renderCount st + 1,
             painted := painted st @ [(end1 - renderCount st, last segs, cursor_column t (row_y st - 1))]\<rparr>"
  have first: "refresh_loop t end1 rowsToRender st = refresh_loop t end1 rowsToRender st2"
    unfolding st2_def using ob rc ln cy sp k
    by (subst refresh_loop.simps) (cases st, simp add: Let_def st0_def)
  have p1: "overflowBuffer st2 = butlast segs" by (simp add: st2_def)
  have p2: "\<forall>s \<in> set (butlast segs). int (length s) \<le> cols t"
    using c3 by (auto dest: in_set_butlastD)
  have p3: "m' \<le> length (butlast segs)" using m2 m' by simp
  have p4: "renderCount st2 + int m' \<le> rowsToRender + 1"
    using fit m' by (simp add: st2_def st0_def)
  have p5: "child_exists t (row_y st2)" using cy by (simp add: st2_def st0_def)
  have p6: "\<forall>j < m'. child_exists t (end1 - renderCount st2 - int j)"
  proof (intro allI impI)
    fix j assume "j < m'"
    then have "Suc j < m" using m' by simp
    with ck [rule_format, of "Suc j"] show "child_exists t (end1 - renderCount st2 - int j)"
      by (simp add: st2_def st0_def algebra_simps)
  qed
  from refresh_loop_some_pending [OF p1 p2 p3 p4 p5 p6] obtain st' where
    e2: "refresh_loop t end1 rowsToRender st2 = refresh_loop t end1 rowsToRender st'"
    and q1: "overflowBuffer st' = take (length (butlast segs) - m') (butlast segs)"
    and q2: "row_y st' = row_y st2"
    and q3: "renderCount st' = renderCount st2 + int m'"
    and q4: "painted st' = painted st2
          @ map (\<lambda>j. (end1 - renderCount st2 - int j, rev (butlast segs) ! j, cursor_column t (row_y st2)))
              [0 ..< m']"
    by blast
  have rv: "rev segs = last segs # rev (butlast segs)"
    using seg by (metis rev.simps(2) rev_append rev_rev_ident rev_singleton_conv)
  have tk: "take (length (butlast segs) - m') (butlast segs) = take (length segs - m) segs"
    using ne m' by (simp add: take_butlast)
  have mp: "map (\<lambda>j. (end1 - renderCount st - int j, rev segs ! j, cursor_column t (row_y st - 1)))
              [0 ..< m]
      = (end1 - renderCount st, last segs, cursor_column t (row_y st - 1))
        # map (\<lambda>j. (end1 - renderCount st2 - int j, rev (butlast segs) ! j, cursor_column t (row_y st2)))
              [0 ..< m']"
    unfolding m' rv by (simp add: map_upt_Suc st2_def st0_def algebra_simps del: upt_Suc)
  have "painted st' = painted st
          @ map (\<lambda>j. (end1 - renderCount st - int j, rev segs ! j, cursor_column t (row_y st - 1)))
              [0 ..< m]"
    unfolding mp q4 by (simp add: st2_def st0_def)
  moreover have "renderCount st' = renderCount st + int m"
    using q3 m' by (simp add: st2_def st0_def)
  moreover have "row_y st' = row_y st - 1" using q2 by (simp add: st2_def st0_def)
  moreover have "refresh_loop t end1 rowsToRender st = refresh_loop t end1 rowsToRender st'"
    using first e2 by simp
  moreover have "overflowBuffer st' = take (length segs - m) segs" using q1 tk by simp
  ultimately show ?thesis by blast
qed

lemma split_overflow_total:
  assumes w: "1 \<le> width"
  shows "\<exists>line' pending'. split_overflow line width blank pending = Some (Composite line' pending')"
proof (cases "width < int (length line)")
  case True
  from overflow_chunks [OF w True, of blank pending] show ?thesis by blast
next
  case False
  then show ?thesis by (simp add: split_overflow_def)
qed

lemma refresh_loop_total:
  assumes w: "1 \<le> cols t"
  shows "\<forall>c. renderCount st \<le> c \<and> c \<le> rowsToRender \<longrightarrow> child_exists t (end1 - c) \<Longrightarrow>
    \<exists>fin ext. refresh_loop t end1 rowsToRender st = Some (Inr (Finished, fin))
       \<and> painted fin = painted st @ ext"
proof (induction "nat (rowsToRender + 1 - renderCount st)" arbitrary: st rule: less_induct)
  case less
  note eq = refresh_loop.simps [of t end1 rowsToRender st]
  show ?case
  proof (cases "renderCount st \<le> rowsToRender")
    case False
    then have "refresh_loop t end1 rowsToRender st = Some (Inr (Finished, st))"
      by (rule refresh_loop_finished)
    then show ?thesis by simp
  next
    case True
    define st1 where "st1 = (if overflowBuffer st \<noteq> []
                    then st\<lparr>overflowBuffer := butlast (overflowBuffer st), inOverflow := True\<rparr>
                    else st\<lparr>inOverflow := False, row_y := row_y st - 1\<rparr>)"
    define ln where "ln = (if overflowBuffer st \<noteq> []
                     then Some (last (overflowBuffer st))
                     else term_lines t (row_y st1 + ydisp t))"
    have rc1: "renderCount st1 = renderCount st" by (simp add: st1_def)
    have pt1: "painted st1 = painted st" by (simp add: st1_def)
    define skip where "skip = st1\<lparr>renderCount := renderCount st1 + 1\<rparr>"
    have skip_ih: "\<exists>fin ext. refresh_loop t end1 rowsToRender skip = Some (Inr (Finished, fin))
       \<and> painted fin = painted skip @ ext"
    proof (rule less.hyps)
      show "nat (rowsToRender + 1 - renderCount skip) < nat (rowsToRender + 1 - renderCount st)"
        using True by (simp add: skip_def rc1)
      show "\<forall>c. renderCount skip \<le> c \<and> c \<le> rowsToRender \<longrightarrow> child_exists t (end1 - c)"
        using less.prems by (simp add: skip_def rc1)
    qed
    have skip_pt: "painted skip = painted st" by (simp add: skip_def pt1)
    show ?thesis
    proof (cases "ln = None \<or> \<not> child_exists t (row_y st1)")
      case skipped: True
      have "refresh_loop t end1 rowsToRender st = refresh_loop t end1 rowsToRender skip"
        using True skipped unfolding skip_def st1_def ln_def
        by (subst eq) (auto simp: Let_def split: option.splits)
      with skip_ih skip_pt show ?thesis by simp
    next
      case False
      then obtain line where line: "ln = Some line" and cy: "child_exists t (row_y st1)" by auto
      from split_overflow_total [OF w, of line "defAttr t" "overflowBuffer st1"]
      obtain line' pending' where
        sp: "split_overflow line (cols t) (defAttr t) (overflowBuffer st1) = Some (Composite line' pending')"
        by blast
      define st3 where "st3 = st1\<lparr>overflowBuffer := pending', renderCount := renderCount st1 + 1,
          painted := painted st1 @ [(end1 + 1 - (renderCount st1 + 1), line', cursor_column t (row_y st1))]\<rparr>"
      have ck: "child_exists t (end1 + 1 - (renderCount st1 + 1))"
        using less.prems [rule_format, of "renderCount st"] True by (simp add: rc1)
      have "refresh_loop t end1 rowsToRender st = refresh_loop t end1 rowsToRender st3"
        using True line cy sp ck unfolding st3_def st1_def ln_def
        by (subst eq) (simp add: Let_def)
      moreover have "\<exists>fin ext. refresh_loop t end1 rowsToRender st3 = Some (Inr (Finished, fin))
         \<and> painted fin = painted st3 @ ext"
      proof (rule less.hyps)
        show "nat (rowsToRender + 1 - renderCount st3) < nat (rowsToRender + 1 - renderCount st)"
          using True by (simp add: st3_def rc1)
        show "\<forall>c. renderCount st3 \<le> c \<and> c \<le> rowsToRender \<longrightarrow> child_exists t (end1 - c)"
          using less.prems by (simp add: st3_def rc1)
      qed
      moreover have "painted st3 = painted st @ [(end1 + 1 - (renderCount st1 + 1), line', cursor_column t (row_y st1))]"
        by (simp add: st3_def pt1)
      ultimately show ?thesis by auto
    qed
  qed
qed

lemma refresh_loop_overflow_row:
  assumes w: "1 \<le> cols t" and l: "cols t < int (length line)"
    and ob: "overflowBuffer st = []" and rc: "renderCount st \<le> rowsToRender"
    and ln: "term_lines t (row_y st - 1 + ydisp t) = Some line"
    and cy: "child_exists t (row_y st - 1)"
    and ck: "\<forall>c. renderCount st \<le> c \<and> c \<le> rowsToRender \<longrightarrow> child_exists t (end1 - c)"
    and ch: "chunkArray (trimBlank line (cols t) (defAttr t)) (cols t) = Some segs"
  shows "\<exists>fin ext. refresh_loop t end1 rowsToRender st = Some (Inr (Finished, fin))
     \<and> painted fin = painted st
          @ map (\<lambda>j. (end1 - renderCount st - int j, rev segs ! j, cursor_column t (row_y st - 1)))
              [0 ..< min (length segs) (nat (rowsToRender + 1 - renderCount st))]
          @ ext
     \<and> (rowsToRender + 1 - renderCount st \<le> int (length segs) \<longrightarrow>
          ext = []
          \<and> overflowBuffer fin = take (length segs - nat (rowsToRender + 1 - renderCount st)) segs)"
proof -
  define m where "m = min (length segs) (nat (rowsToRender + 1 - renderCount st))"
  from overflow_chunks [OF w l, of "defAttr t" "[]"] ch have ne: "segs \<noteq> []" by auto
  then have ls: "1 \<le> length segs" by (cases segs) simp_all
  have m1: "1 \<le> m" using ls rc unfolding m_def by linarith
  have m2: "m \<le> length segs" by (simp add: m_def)
  have fit: "renderCount st + int m \<le> rowsToRender + 1" using rc unfolding m_def by linarith
  have ckm: "\<forall>j < m. child_exists t (end1 - renderCount st - int j)"
  proof (intro allI impI)
    fix j assume "j < m"
    with fit have "renderCount st \<le> renderCount st + int j \<and> renderCount st + int j \<le> rowsToRender"
      by simp
    with ck have "child_exists t (end1 - (renderCount st + int j))" by blast
    then show "child_exists t (end1 - renderCount st - int j)" by (simp add: algebra_simps)
  qed
  from refresh_loop_long_line [OF ob ln w l cy ch m1 m2 fit ckm] obtain st' where
    e: "refresh_loop t end1 rowsToRender st = refresh_loop t end1 rowsToRender st'"
    and q1: "overflowBuffer st' = take (length segs - m) segs"
    and q3: "renderCount st' = renderCount st + int m"
    and q4: "painted st' = painted st
          @ map (\<lambda>j. (end1 - renderCount st - int j, rev segs ! j, cursor_column t (row_y st - 1)))
              [0 ..< m]"
    by blast
  have ck': "\<forall>c. renderCount st' \<le> c \<and> c \<le> rowsToRender \<longrightarrow> child_exists t (end1 - c)"
    using ck q3 by simp
  from refresh_loop_total [OF w ck'] obtain fin ext where
    f: "refresh_loop t end1 rowsToRender st' = Some (Inr (Finished, fin))"
    and p: "painted fin = painted st' @ ext"
    by blast
  have r1: "refresh_loop t end1 rowsToRender st = Some (Inr (Finished, fin))" using e f by simp
  have r2: "painted fin = painted st
          @ map (\<lambda>j. (end1 - renderCount st - int j, rev segs ! j, cursor_column t (row_y st - 1)))
              [0 ..< min (length segs) (nat (rowsToRender + 1 - renderCount st))]
          @ ext"
    using p q4 by (simp add: m_def)
  have r3: "rowsToRender + 1 - renderCount st \<le> int (length segs) \<longrightarrow>
          ext = []
          \<and> overflowBuffer fin = take (length segs - nat (rowsToRender + 1 - renderCount st)) segs"
  proof
    assume h: "rowsToRender + 1 - renderCount st \<le> int (length segs)"
    then have mm: "m = nat (rowsToRender + 1 - renderCount st)" unfolding m_def by linarith
    with q3 rc have "\<not> renderCount st' \<le> rowsToRender" by simp
    then have "refresh_loop t end1 rowsToRender st' = Some (Inr (Finished, st'))"
      by (rule refresh_loop_finished)
    with f have "fin = st'" by simp
    with p q1 mm show "ext = []
          \<and> overflowBuffer fin = take (length segs - nat (rowsToRender + 1 - renderCount st)) segs"
      by simp
  qed
  from r1 r2 r3 show ?thesis by blast
qed

lemma refresh_overflow_row:
  assumes s0: "0 \<le> start'" and se: "start' \<le> end0" and er: "end0 < rows t"
    and ec: "end0 < int (children t)"
    and w: "1 \<le> cols t" and l: "cols t < int (length line)"
    and ln: "term_lines t (end0 + ydisp t) = Some line"
    and ch: "chunkArray (trimBlank line (cols t) (defAttr t)) (cols t) = Some segs"
  shows "\<exists>fin ext. refresh t start' end0 = Some (Inr (Finished, fin))
     \<and> painted fin =
          map (\<lambda>j. (end0 - int j, rev segs ! j, cursor_column t end0))
              [0 ..< min (length segs) (nat (end0 - start' + 1))]
          @ ext
     \<and> (end0 - start' + 1 \<le> int (length segs) \<longrightarrow>
          ext = [] \<and> overflowBuffer fin = take (length segs - nat (end0 - start' + 1)) segs)"
proof -
  define st0 :: refresh_state where
    "st0 = \<lparr>row_y = end0 + 1, overflowBuffer = [], inOverflow = False, renderCount = 0, painted = []\<rparr>"
  have r: "refresh t start' end0 = refresh_loop t end0 (end0 - start') st0"
    using er by (simp add: refresh_def Let_def st0_def)
  have h1: "overflowBuffer st0 = []" by (simp add: st0_def)
  have h2: "renderCount st0 \<le> end0 - start'" using se by (simp add: st0_def)
  have h3: "term_lines t (row_y st0 - 1 + ydisp t) = Some line" using ln by (simp add: st0_def)
  have h4: "child_exists t (row_y st0 - 1)" using s0 se ec by (simp add: st0_def child_exists_def)
  have h5: "\<forall>c. renderCount st0 \<le> c \<and> c \<le> end0 - start' \<longrightarrow> child_exists t (end0 - c)"
    using s0 ec by (simp add: st0_def child_exists_def)
  from refresh_loop_overflow_row [OF w l h1 h2 h3 h4 h5 ch]
  show ?thesis unfolding r by (simp add: st0_def algebra_simps)
qed

text \<open>A terminal of 3 rows whose row 2 holds 25 cells without a blank, at width 10.\<close>

lemma chunk_row_full:
  "chunkArray (trimBlank row_full 10 0) 10
     = Some [replicate 10 cell_x, replicate 10 cell_x, replicate 5 cell_x]"
  by (simp add: trimBlank_examples chunkArray_def row_lengths chunkArray_loop_step
      chunkArray_loop_stop js_slice_def)
     (simp add: row_full_def)

lemma long_terminal_fields:
  "cols long_terminal = 10" "defAttr long_terminal = 0" "ydisp long_terminal = 0"
  "ybase long_terminal = 0" "term_lines long_terminal 2 = Some row_full"
  "children long_terminal = 3" "rows long_terminal = 3"
  "term_y long_terminal = 0" "term_x long_terminal = 0"
  by (simp_all add: long_terminal_def idle_terminal_def)

lemma split_row_full:
  "split_overflow row_full 10 0 [] =
     Some (Composite (replicate 5 cell_x) [replicate 10 cell_x, replicate 10 cell_x])"
  by (simp add: split_overflow_def row_lengths chunk_row_full)

text \<open>A refresh of the rows 0 to 2 composites the three segments, the last one in row 2.\<close>

lemma refresh_three_rows:
  "refresh long_terminal 0 2 =
     Some (Inr (Finished, \<lparr>row_y = 2, overflowBuffer = [], inOverflow = True, renderCount = 3,
        painted = [(2, replicate 5 cell_x, - 1), (1, replicate 10 cell_x, - 1),
                   (0, replicate 10 cell_x, - 1)]\<rparr>))"
  unfolding refresh_def
  apply (simp add: long_terminal_fields Let_def)
  apply (subst refresh_loop.simps)
  apply (simp add: long_terminal_fields Let_def child_exists_def split_row_full cursor_column_def)
  apply (subst refresh_loop.simps)
  apply (simp add: long_terminal_fields Let_def child_exists_def split_overflow_def cursor_column_def)
  apply (subst refresh_loop.simps)
  apply (simp add: long_terminal_fields Let_def child_exists_def split_overflow_def cursor_column_def)
  apply (subst refresh_loop.simps)
  apply (simp add: long_terminal_fields Let_def child_exists_def split_overflow_def cursor_column_def)
  done

text \<open>
  C8 (corrected). The refresh composites one row per round and at most \<open>end - start + 1\<close>
  rows, so the segments of a long row are not all composited when fewer rows are left.
  What holds, for a width of at least 1 and a row with more cells than the width:

  \<^item> \<open>trimBlank\<close> keeps the first \<open>width\<close> cells when every cell from the column \<open>width\<close> on
    has a space as its character, and otherwise the cells up to the last one from that
    column on whose character is not a space, and one cell more if there is one; the
    attribute of a cell plays no part;
  \<^item> \<open>chunkArray\<close> returns the kept cells in segments, in order: the list is not empty, all
    segments but the last have \<open>width\<close> cells, and so has the first, the last has between 1
    and \<open>width\<close>, and their number is the kept length divided by the width, rounded up; the
    compositor takes the last segment as the row to composite and keeps the others;
  \<^item> a row of 25 cells at width 10 gives between 1 and 3 segments, the first of 10 cells:
    segments of 10, 10 and 5 cells when one of its last two cells is not a space, and one
    segment of 10 cells when every cell from the column 10 on is a space;
  \<^item> in the row loop, when the next row that is fetched is such a row and the row elements
    exist, the loop ends normally and has composited, from the last segment backwards,
    each into the row element \<open>end - renderCount\<close> of its round, as many segments as there
    were rounds left, or all of them when there are fewer segments than that; when
    there are no more rounds than segments nothing else is composited and the segments
    that were not composited are those left in the overflow buffer;
  \<^item> so a refresh from \<open>start\<close> to \<open>end\<close> whose row \<open>end\<close> is such a row composites its last
    \<open>end - start + 1\<close> segments, or all of them when there are fewer, into the row elements
    \<open>end\<close>, \<open>end - 1\<close> and so on.
\<close>

theorem overflow_row_segments:
  "(1 \<le> width \<and> width < int (length line) \<longrightarrow>
      nat width \<le> length (trimBlank line width blank)
      \<and> length (trimBlank line width blank) \<le> length line
      \<and> ((\<forall>k. nat width \<le> k \<and> k < length line \<longrightarrow> fst (snd (line ! k)) = '' '')
           \<longrightarrow> trimBlank line width blank = take (nat width) line)
      \<and> (\<forall>j. nat width \<le> j \<and> j < length line \<and> fst (snd (line ! j)) \<noteq> '' ''
              \<and> (\<forall>k. j < k \<and> k < length line \<longrightarrow> fst (snd (line ! k)) = '' '')
           \<longrightarrow> trimBlank line width blank = take (j + 2) line)
      \<and> (\<exists>segs. chunkArray (trimBlank line width blank) width = Some segs
            \<and> segs \<noteq> []
            \<and> concat segs = trimBlank line width blank
            \<and> (\<forall>c \<in> set (butlast segs). int (length c) = width)
            \<and> 1 \<le> length (last segs) \<and> int (length (last segs)) \<le> width
            \<and> int (length (hd segs)) = width
            \<and> int (length segs) = Math_ceil_div (int (length (trimBlank line width blank))) width
            \<and> split_overflow line width blank pending
                = Some (Composite (last segs) (butlast segs))))
   \<and> (length line = 25 \<longrightarrow>
      (\<exists>segs. chunkArray (trimBlank line 10 blank) 10 = Some segs
         \<and> 1 \<le> length segs \<and> length segs \<le> 3 \<and> length (hd segs) = 10
         \<and> (fst (snd (line ! 24)) \<noteq> '' '' \<or> fst (snd (line ! 23)) \<noteq> '' ''
              \<longrightarrow> map length segs = [10, 10, 5])
         \<and> ((\<forall>k. 10 \<le> k \<and> k < 25 \<longrightarrow> fst (snd (line ! k)) = '' '')
              \<longrightarrow> map length segs = [10])))
   \<and> (1 \<le> cols t \<and> cols t < int (length line)
        \<and> overflowBuffer st = [] \<and> renderCount st \<le> rowsToRender
        \<and> term_lines t (row_y st - 1 + ydisp t) = Some line
        \<and> child_exists t (row_y st - 1)
        \<and> (\<forall>c. renderCount st \<le> c \<and> c \<le> rowsToRender \<longrightarrow> child_exists t (end1 - c))
        \<and> chunkArray (trimBlank line (cols t) (defAttr t)) (cols t) = Some segs \<longrightarrow>
      (\<exists>fin ext. refresh_loop t end1 rowsToRender st = Some (Inr (Finished, fin))
         \<and> painted fin = painted st
              @ map (\<lambda>j. (end1 - renderCount st - int j, rev segs ! j,
                           cursor_column t (row_y st - 1)))
                  [0 ..< min (length segs) (nat (rowsToRender + 1 - renderCount st))]
              @ ext
         \<and> (rowsToRender + 1 - renderCount st \<le> int (length segs) \<longrightarrow>
              ext = []
              \<and> overflowBuffer fin
                  = take (length segs - nat (rowsToRender + 1 - renderCount st)) segs)))
   \<and> (0 \<le> start' \<and> start' \<le> end0 \<and> end0 < rows t \<and> end0 < int (children t)
        \<and> 1 \<le> cols t \<and> cols t < int (length line)
        \<and> term_lines t (end0 + ydisp t) = Some line
        \<and> chunkArray (trimBlank line (cols t) (defAttr t)) (cols t) = Some segs \<longrightarrow>
      (\<exists>fin ext. refresh t start' end0 = Some (Inr (Finished, fin))
         \<and> painted fin =
              map (\<lambda>j. (end0 - int j, rev segs ! j, cursor_column t end0))
                  [0 ..< min (length segs) (nat (end0 - start' + 1))]
              @ ext
         \<and> (end0 - start' + 1 \<le> int (length segs) \<longrightarrow>
              ext = []
              \<and> overflowBuffer fin = take (length segs - nat (end0 - start' + 1)) segs)))"
  (is "(?HA \<longrightarrow> ?CA) \<and> (?HB \<longrightarrow> ?CB) \<and> (?HC \<longrightarrow> ?CC) \<and> (?HD \<longrightarrow> ?CD)")
proof -
  have a: "?HA \<longrightarrow> ?CA"
  proof
    assume ?HA
    then have w: "1 \<le> width" and l: "width < int (length line)" by simp_all
    from w have w0: "0 \<le> width" by simp
    note a1 = trimBlank_length [OF w l, of blank]
    have a3: "(\<forall>k. nat width \<le> k \<and> k < length line \<longrightarrow> fst (snd (line ! k)) = '' '')
           \<longrightarrow> trimBlank line width blank = take (nat width) line"
      using trimBlank_all_space [OF w0 l, of blank] by blast
    have a4: "\<forall>j. nat width \<le> j \<and> j < length line \<and> fst (snd (line ! j)) \<noteq> '' ''
              \<and> (\<forall>k. j < k \<and> k < length line \<longrightarrow> fst (snd (line ! k)) = '' '')
           \<longrightarrow> trimBlank line width blank = take (j + 2) line"
      using trimBlank_last_char [OF w0, of _ line blank] by blast
    from overflow_segments [OF w l, of blank pending]
    have a5: "\<exists>segs. chunkArray (trimBlank line width blank) width = Some segs
            \<and> segs \<noteq> []
            \<and> concat segs = trimBlank line width blank
            \<and> (\<forall>c \<in> set (butlast segs). int (length c) = width)
            \<and> 1 \<le> length (last segs) \<and> int (length (last segs)) \<le> width
            \<and> int (length (hd segs)) = width
            \<and> int (length segs) = Math_ceil_div (int (length (trimBlank line width blank))) width
            \<and> split_overflow line width blank pending
                = Some (Composite (last segs) (butlast segs))"
      by blast
    from a1 a3 a4 a5 show ?CA by (intro conjI)
  qed
  have b: "?HB \<longrightarrow> ?CB"
    using row_of_25 [of line blank] by blast
  have c: "?HC \<longrightarrow> ?CC"
    using refresh_loop_overflow_row [of t line st rowsToRender end1 segs] by blast
  have d: "?HD \<longrightarrow> ?CD"
    using refresh_overflow_row [of start' end0 t line segs] by blast
  from a b c d show ?thesis by (intro conjI)
qed

theorem overflow_row_segments_witness:
  "trimBlank row_half 10 0 = take 13 row_half
   \<and> trimBlank row_blank 10 0 = take 10 row_blank
   \<and> (\<exists>segs. chunkArray (trimBlank row_half 10 0) 10 = Some segs
        \<and> length segs = 2 \<and> length (hd segs) = 10 \<and> concat segs = take 13 row_half
        \<and> split_overflow row_half 10 0 [] = Some (Composite (last segs) (butlast segs)))
   \<and> (\<exists>segs. chunkArray (trimBlank row_full 10 0) 10 = Some segs
        \<and> map length segs = [10, 10, 5])
   \<and> (\<exists>fin. refresh_loop long_terminal 2 2
               \<lparr>row_y = 3, overflowBuffer = [], inOverflow = False, renderCount = 0, painted = []\<rparr>
             = Some (Inr (Finished, fin))
        \<and> painted fin = [(2, replicate 5 cell_x, - 1), (1, replicate 10 cell_x, - 1),
                          (0, replicate 10 cell_x, - 1)]
        \<and> overflowBuffer fin = [])
   \<and> (\<exists>fin. refresh long_terminal 2 2 = Some (Inr (Finished, fin))
        \<and> painted fin = [(2, replicate 5 cell_x, - 1)]
        \<and> overflowBuffer fin = [replicate 10 cell_x, replicate 10 cell_x])"
proof -
  define st0 :: refresh_state where
    "st0 = \<lparr>row_y = 3, overflowBuffer = [], inOverflow = False, renderCount = 0, painted = []\<rparr>"
  define segs3 where "segs3 = [replicate 10 cell_x, replicate 10 cell_x, replicate 5 cell_x]"
  have h1: "(1::int) \<le> 10 \<and> 10 < int (length row_half)" by (simp add: row_lengths)
  have h2: "(1::int) \<le> 10 \<and> 10 < int (length row_blank)" by (simp add: row_lengths)
  have h3: "nat 10 \<le> 11 \<and> 11 < length row_half \<and> fst (snd (row_half ! 11)) \<noteq> '' ''
      \<and> (\<forall>k. 11 < k \<and> k < length row_half \<longrightarrow> fst (snd (row_half ! k)) = '' '')"
    by (auto simp: row_half_def cell_x_def blank_cell_def nth_append)
  have h4: "\<forall>k. nat 10 \<le> k \<and> k < length row_blank \<longrightarrow> fst (snd (row_blank ! k)) = '' ''"
    by (simp add: row_blank_def blank_cell_def)
  have h5: "length row_full = 25" by (simp add: row_lengths)
  have h6: "fst (snd (row_full ! 24)) \<noteq> '' '' \<or> fst (snd (row_full ! 23)) \<noteq> '' ''"
    by (simp add: row_full_def cell_x_def)
  have h7: "1 \<le> cols long_terminal \<and> cols long_terminal < int (length row_full)
      \<and> overflowBuffer st0 = [] \<and> renderCount st0 \<le> 2
      \<and> term_lines long_terminal (row_y st0 - 1 + ydisp long_terminal) = Some row_full
      \<and> child_exists long_terminal (row_y st0 - 1)
      \<and> (\<forall>c. renderCount st0 \<le> c \<and> c \<le> 2 \<longrightarrow> child_exists long_terminal (2 - c))
      \<and> chunkArray (trimBlank row_full (cols long_terminal) (defAttr long_terminal))
           (cols long_terminal) = Some segs3"
    by (simp add: long_terminal_fields row_lengths st0_def child_exists_def chunk_row_full segs3_def)
  have h8: "(0::int) \<le> 2 \<and> (2::int) \<le> 2 \<and> 2 < rows long_terminal
      \<and> 2 < int (children long_terminal)
      \<and> 1 \<le> cols long_terminal \<and> cols long_terminal < int (length row_full)
      \<and> term_lines long_terminal (2 + ydisp long_terminal) = Some row_full
      \<and> chunkArray (trimBlank row_full (cols long_terminal) (defAttr long_terminal))
           (cols long_terminal) = Some segs3"
    by (simp add: long_terminal_fields row_lengths chunk_row_full segs3_def)
  from overflow_row_segments [where width = 10 and line = row_half and blank = 0 and pending = "[]",
      THEN conjunct1] h1
  have a1: "\<forall>j. nat 10 \<le> j \<and> j < length row_half \<and> fst (snd (row_half ! j)) \<noteq> '' ''
              \<and> (\<forall>k. j < k \<and> k < length row_half \<longrightarrow> fst (snd (row_half ! k)) = '' '')
           \<longrightarrow> trimBlank row_half 10 0 = take (j + 2) row_half"
    and a2: "\<exists>segs. chunkArray (trimBlank row_half 10 0) 10 = Some segs
            \<and> segs \<noteq> []
            \<and> concat segs = trimBlank row_half 10 0
            \<and> (\<forall>c \<in> set (butlast segs). int (length c) = 10)
            \<and> 1 \<le> length (last segs) \<and> int (length (last segs)) \<le> 10
            \<and> int (length (hd segs)) = 10
            \<and> int (length segs) = Math_ceil_div (int (length (trimBlank row_half 10 0))) 10
            \<and> split_overflow row_half 10 0 []
                = Some (Composite (last segs) (butlast segs))"
    by blast+
  from a1 h3 have r1: "trimBlank row_half 10 0 = take 13 row_half" by fastforce
  from overflow_row_segments [where width = 10 and line = row_blank and blank = 0 and pending = "[]",
      THEN conjunct1] h2 h4
  have r2: "trimBlank row_blank 10 0 = take 10 row_blank" by simp
  from a2 obtain segs where
    s1: "chunkArray (trimBlank row_half 10 0) 10 = Some segs"
    and s2: "concat segs = trimBlank row_half 10 0"
    and s3: "int (length (hd segs)) = 10"
    and s4: "int (length segs) = Math_ceil_div (int (length (trimBlank row_half 10 0))) 10"
    and s5: "split_overflow row_half 10 0 [] = Some (Composite (last segs) (butlast segs))"
    by blast
  have "length segs = 2" using s4 by (simp add: r1 row_lengths Math_ceil_div_code)
  with s1 s2 s3 s5 r1
  have r3: "\<exists>segs. chunkArray (trimBlank row_half 10 0) 10 = Some segs
        \<and> length segs = 2 \<and> length (hd segs) = 10 \<and> concat segs = take 13 row_half
        \<and> split_overflow row_half 10 0 [] = Some (Composite (last segs) (butlast segs))"
    by (intro exI [of _ segs]) simp
  from overflow_row_segments [where line = row_full and blank = 0, THEN conjunct2, THEN conjunct1] h5
  have "\<exists>segs. chunkArray (trimBlank row_full 10 0) 10 = Some segs
         \<and> 1 \<le> length segs \<and> length segs \<le> 3 \<and> length (hd segs) = 10
         \<and> (fst (snd (row_full ! 24)) \<noteq> '' '' \<or> fst (snd (row_full ! 23)) \<noteq> '' ''
              \<longrightarrow> map length segs = [10, 10, 5])
         \<and> ((\<forall>k. 10 \<le> k \<and> k < 25 \<longrightarrow> fst (snd (row_full ! k)) = '' '')
              \<longrightarrow> map length segs = [10])"
    by (rule mp)
  with h6 have r4: "\<exists>segs. chunkArray (trimBlank row_full 10 0) 10 = Some segs
        \<and> map length segs = [10, 10, 5]"
    by auto
  from overflow_row_segments [where t = long_terminal and line = row_full and st = st0
      and segs = segs3 and rowsToRender = 2 and ?end1.0 = 2,
      THEN conjunct2, THEN conjunct2, THEN conjunct1] h7
  obtain fin ext where
    c1: "refresh_loop long_terminal 2 2 st0 = Some (Inr (Finished, fin))"
    and c2: "painted fin = painted st0
              @ map (\<lambda>j. (2 - renderCount st0 - int j, rev segs3 ! j,
                           cursor_column long_terminal (row_y st0 - 1)))
                  [0 ..< min (length segs3) (nat (2 + 1 - renderCount st0))]
              @ ext"
    and c3: "2 + 1 - renderCount st0 \<le> int (length segs3) \<longrightarrow>
              ext = []
              \<and> overflowBuffer fin = take (length segs3 - nat (2 + 1 - renderCount st0)) segs3"
    by blast
  from c3 have c4: "ext = []" "overflowBuffer fin = []" by (simp_all add: st0_def segs3_def)
  from c2 c4 have c5: "painted fin = [(2, replicate 5 cell_x, - 1), (1, replicate 10 cell_x, - 1),
                          (0, replicate 10 cell_x, - 1)]"
    by (simp add: st0_def segs3_def cursor_column_def long_terminal_fields upt_rec)
  from c1 c4 c5 have r5: "\<exists>fin. refresh_loop long_terminal 2 2 st0 = Some (Inr (Finished, fin))
        \<and> painted fin = [(2, replicate 5 cell_x, - 1), (1, replicate 10 cell_x, - 1),
                          (0, replicate 10 cell_x, - 1)]
        \<and> overflowBuffer fin = []"
    by blast
  from overflow_row_segments [where t = long_terminal and line = row_full and segs = segs3
      and start' = 2 and ?end0.0 = 2, THEN conjunct2, THEN conjunct2, THEN conjunct2] h8
  obtain fin' ext' where
    d1: "refresh long_terminal 2 2 = Some (Inr (Finished, fin'))"
    and d2: "painted fin' =
              map (\<lambda>j. (2 - int j, rev segs3 ! j, cursor_column long_terminal 2))
                  [0 ..< min (length segs3) (nat (2 - 2 + 1))]
              @ ext'"
    and d3: "2 - 2 + 1 \<le> int (length segs3) \<longrightarrow>
              ext' = [] \<and> overflowBuffer fin' = take (length segs3 - nat (2 - 2 + 1)) segs3"
    by blast
  from d3 have d4: "ext' = []" "overflowBuffer fin' = [replicate 10 cell_x, replicate 10 cell_x]"
    by (simp_all add: segs3_def)
  from d2 d4 have d5: "painted fin' = [(2, replicate 5 cell_x, - 1)]"
    by (simp add: segs3_def cursor_column_def long_terminal_fields)
  from d1 d4 d5 have r6: "\<exists>fin. refresh long_terminal 2 2 = Some (Inr (Finished, fin))
        \<and> painted fin = [(2, replicate 5 cell_x, - 1)]
        \<and> overflowBuffer fin = [replicate 10 cell_x, replicate 10 cell_x]"
    by blast
  from r1 r2 r3 r4 r5 r6 show ?thesis unfolding st0_def by (intro conjI)
qed

text \<open>
  A refresh of row 2 alone splits the row into three segments and composites the last one
  only: the two segments of 10 cells are left in the overflow buffer when the loop ends.
  An all-blank row of 25 cells gives one segment of 10 cells.
\<close>

theorem single_row_refresh_counterexample:
  "length row_full = 25
   \<and> chunkArray (trimBlank row_full 10 0) 10
       = Some [replicate 10 cell_x, replicate 10 cell_x, replicate 5 cell_x]
   \<and> length row_blank = 25
   \<and> map_option (map length) (chunkArray (trimBlank row_blank 10 0) 10) = Some [10]
   \<and> refresh long_terminal 2 2 =
       Some (Inr (Finished, \<lparr>row_y = 2, overflowBuffer = [replicate 10 cell_x, replicate 10 cell_x],
          inOverflow = False, renderCount = 1,
          painted = [(2, replicate 5 cell_x, - 1)]\<rparr>))"
proof -
  have "refresh long_terminal 2 2 =
       Some (Inr (Finished, \<lparr>row_y = 2, overflowBuffer = [replicate 10 cell_x, replicate 10 cell_x],
          inOverflow = False, renderCount = 1,
          painted = [(2, replicate 5 cell_x, - 1)]\<rparr>))"
    unfolding refresh_def
    apply (simp add: long_terminal_fields Let_def)
    apply (subst refresh_loop.simps)
    apply (simp add: long_terminal_fields Let_def child_exists_def split_row_full cursor_column_def)
    apply (subst refresh_loop.simps)
    apply (simp add: long_terminal_fields Let_def child_exists_def split_overflow_def cursor_column_def)
    done
  then show ?thesis by (simp add: row_lengths chunk_row_full chunk_examples)
qed

end
